theory Spec2Isabelle
  imports Complex_Main "HOL-Library.Log_Nat"
begin

section \<open>Errors\<close>

text \<open>
  The exceptions the Python code raises, as values. \<open>InvalidFileFormatError\<close> carries the
  file type, the optional line number and the message, as the class of that name in
  \<^verbatim>\<open>parser_util.py\<close> does. \<open>ParseFinished\<close> is the end-of-stream signal. \<open>ValueError\<close>,
  \<open>OverflowError\<close> and \<open>IndexError\<close> are the built-in exceptions of the same names, \<open>XMLSyntaxError\<close> is the
  one of \<^verbatim>\<open>lxml\<close>.
\<close>

datatype error =
    InvalidFileFormatError string "int option" string
  | ParseFinished
  | ValueError
  | OverflowError
  | IndexError
  | XMLSyntaxError string

definition err_bind :: "error + 'a \<Rightarrow> ('a \<Rightarrow> error + 'b) \<Rightarrow> error + 'b" where
  "err_bind m f = (case m of Inl e \<Rightarrow> Inl e | Inr x \<Rightarrow> f x)"

section \<open>autosplit.py\<close>

subsection \<open>MLUse and the quota dictionary\<close>

datatype MLUse = UNASSIGNED | TRAIN | VALIDATION | TEST

definition ML_USES :: "MLUse list" where
  "ML_USES = [TRAIN, VALIDATION, TEST]"

text \<open>
  \<^verbatim>\<open>self._example_counts\<close> is a dictionary whose keys are the three members of
  \<^verbatim>\<open>_ML_USES\<close>; it is read and written at these keys only.
\<close>

type_synonym counts = "MLUse \<Rightarrow> int"

definition mk_counts :: "int \<Rightarrow> int \<Rightarrow> int \<Rightarrow> counts" where
  "mk_counts tr va te = (\<lambda>u. 0)(TRAIN := tr, VALIDATION := va, TEST := te)"

definition counts_sum :: "counts \<Rightarrow> int" where
  "counts_sum c = sum_list (map c ML_USES)"

subsection \<open>Binary64 arithmetic\<close>

text \<open>
  Python's \<^verbatim>\<open>float\<close> is the IEEE 754 binary64 format. A finite float is a rational number;
  every operation returns the exact result rounded to the nearest representable number, ties
  to the even significand. \<open>floor_log2 x\<close> is the binary exponent of a positive \<open>x\<close>,
  \<open>binary64\<close> rounds to 53 significant bits (with the fixed quantum \<open>2 powi (- 1074)\<close> in the
  subnormal range), and \<open>fl\<close> adds the overflow: a result that rounds to \<open>2 ^ 1024\<close> or more is
  no finite float. For the conversion of an integer that is \<^verbatim>\<open>OverflowError\<close>; for a product or a
  difference it is an infinity, which \<^verbatim>\<open>math.ceil\<close> and \<^verbatim>\<open>int\<close> refuse with \<^verbatim>\<open>OverflowError\<close> as well.
\<close>

definition round_half_even :: "rat \<Rightarrow> int" where
  "round_half_even r =
     (let f = \<lfloor>r\<rfloor>; d = r - of_int f
      in if d < 1 / 2 then f
         else if 1 / 2 < d then f + 1
         else if even f then f else f + 1)"

definition floor_log2 :: "rat \<Rightarrow> int" where
  "floor_log2 x =
     (case quotient_of x of
        (p, q) \<Rightarrow> let d = bitlen p - bitlen q in if 2 powi d \<le> x then d else d - 1)"

definition binary64 :: "rat \<Rightarrow> rat" where
  "binary64 x =
     (if x = 0 then 0
      else let e = max (floor_log2 \<bar>x\<bar>) (- 1022); q = 2 powi (e - 52)
           in of_int (round_half_even (x / q)) * q)"

definition fl :: "rat \<Rightarrow> error + rat" where
  "fl x = (let y = binary64 x in if 2 ^ 1024 \<le> \<bar>y\<bar> then Inl OverflowError else Inr y)"

text \<open>The literals \<^verbatim>\<open>0.8\<close> and \<^verbatim>\<open>0.9\<close> denote the floats nearest to 4/5 and 9/10.\<close>

definition float_0_8 :: rat where
  "float_0_8 = binary64 (4 / 5)"

definition float_0_9 :: rat where
  "float_0_9 = binary64 (9 / 10)"

subsection \<open>The quotas\<close>

text \<open>
  \<^verbatim>\<open>train_example_count = int(math.ceil(total_example_count * 0.8))\<close>,
  \<^verbatim>\<open>validation_example_count = int(math.ceil(total_example_count * 0.9 - train_example_count))\<close>,
  \<^verbatim>\<open>test_example_count = total_example_count - validation_example_count - train_example_count\<close>.
  The integer operands are converted to floats before each float operation; the last line
  is integer arithmetic.
\<close>

definition autosplit_example_count :: "int \<Rightarrow> error + counts" where
  "autosplit_example_count total_example_count =
     err_bind (fl (of_int total_example_count)) (\<lambda>x.
     err_bind (fl (x * float_0_8)) (\<lambda>a.
     let train_example_count = \<lceil>a\<rceil> in
     err_bind (fl (x * float_0_9)) (\<lambda>b.
     err_bind (fl (of_int train_example_count)) (\<lambda>t.
     err_bind (fl (b - t)) (\<lambda>d.
     let validation_example_count = \<lceil>d\<rceil>;
         test_example_count =
           total_example_count - validation_example_count - train_example_count
     in Inr (mk_counts train_example_count validation_example_count test_example_count))))))"

subsection \<open>AutoSplitUtil\<close>

text \<open>
  \<^verbatim>\<open>_assign_ml_use\<close> draws \<^verbatim>\<open>random.randint(0, sum - 1)\<close> and walks \<^verbatim>\<open>_ML_USES\<close>. The draw is the
  argument \<open>randint\<close>: what the generator answers for the bounds it is given. \<^verbatim>\<open>randint\<close>
  raises \<^verbatim>\<open>ValueError\<close> on an empty range. The second statement of the method computes
  \<^verbatim>\<open>int(random.random() * sum)\<close> and drops it. \<open>assign_loop\<close> is the \<^verbatim>\<open>for\<close> loop: \<open>None\<close> when
  the loop ends without returning, which is where the method falls back to \<^verbatim>\<open>MLUse.TRAIN\<close>.
\<close>

fun assign_loop :: "counts \<Rightarrow> int \<Rightarrow> MLUse list \<Rightarrow> MLUse option" where
  "assign_loop c example_index [] = None"
| "assign_loop c example_index (ml_use_value # rest) =
     (if example_index < c ml_use_value then Some ml_use_value
      else assign_loop c (example_index - c ml_use_value) rest)"

definition assign_ml_use :: "counts \<Rightarrow> (int \<Rightarrow> int \<Rightarrow> int) \<Rightarrow> error + MLUse" where
  "assign_ml_use c randint =
     (if counts_sum c - 1 < 0 then Inl ValueError
      else let example_index = randint 0 (counts_sum c - 1)
           in Inr (case assign_loop c example_index ML_USES of
                     Some ml_use_value \<Rightarrow> ml_use_value
                   | None \<Rightarrow> TRAIN))"

definition select_ml_use :: "counts \<Rightarrow> MLUse \<Rightarrow> counts" where
  "select_ml_use c ml_use_value = c(ml_use_value := c ml_use_value - 1)"

text \<open>
  The loop of \<^verbatim>\<open>AutoSplitUtil.autosplit\<close> over the pairs the parsers yield. \<open>rand k\<close> is the
  generator at the \<open>k\<close>-th call of \<^verbatim>\<open>_assign_ml_use\<close>, and \<open>fed u\<close> lists the pairs passed to
  \<^verbatim>\<open>exporters[u].feed_parallel_phrase_pair\<close>, in order.
\<close>

type_synonym phrase_pair = "string \<times> string"

fun autosplit_loop ::
  "(nat \<Rightarrow> int \<Rightarrow> int \<Rightarrow> int) \<Rightarrow> nat \<Rightarrow> counts \<Rightarrow> (MLUse \<Rightarrow> phrase_pair list) \<Rightarrow>
   phrase_pair list \<Rightarrow> error + (counts \<times> (MLUse \<Rightarrow> phrase_pair list))" where
  "autosplit_loop rand k c fed [] = Inr (c, fed)"
| "autosplit_loop rand k c fed (p # ps) =
     (case assign_ml_use c (rand k) of
        Inl e \<Rightarrow> Inl e
      | Inr ml_use_value \<Rightarrow>
          autosplit_loop rand (Suc k) (select_ml_use c ml_use_value)
            (fed(ml_use_value := fed ml_use_value @ [p])) ps)"

definition AutoSplitUtil_autosplit ::
  "(nat \<Rightarrow> int \<Rightarrow> int \<Rightarrow> int) \<Rightarrow> int \<Rightarrow> phrase_pair list \<Rightarrow>
   error + (counts \<times> (MLUse \<Rightarrow> phrase_pair list))" where
  "AutoSplitUtil_autosplit rand total_size pairs =
     err_bind (autosplit_example_count total_size) (\<lambda>c.
       autosplit_loop rand 0 c (\<lambda>u. []) pairs)"

text \<open>The contract of \<^verbatim>\<open>random.randint\<close>: on a non-empty range the answer lies in it.\<close>

definition randint_ok :: "(nat \<Rightarrow> int \<Rightarrow> int \<Rightarrow> int) \<Rightarrow> bool" where
  "randint_ok rand = (\<forall>k lo hi. lo \<le> hi \<longrightarrow> lo \<le> rand k lo hi \<and> rand k lo hi \<le> hi)"

definition counts_nonneg :: "counts \<Rightarrow> bool" where
  "counts_nonneg c = (0 \<le> c TRAIN \<and> 0 \<le> c VALIDATION \<and> 0 \<le> c TEST)"

section \<open>parser\_util.py\<close>

subsection \<open>Strings\<close>

text \<open>
  Texts are lists of characters. The string methods the module calls are written out:
  \<^verbatim>\<open>s.split(sep)\<close> for a one-character separator, \<^verbatim>\<open>s.endswith(t)\<close>, \<^verbatim>\<open>s.rstrip(c)\<close>,
  \<^verbatim>\<open>s.strip()\<close>, \<^verbatim>\<open>s.lower()\<close>, \<^verbatim>\<open>sep.join(parts)\<close>, and the decimal
  rendering of a length by \<^verbatim>\<open>'%d'\<close> and \<^verbatim>\<open>'{}'\<close>.
\<close>

definition NL :: char where "NL = CHR 0x0A"
definition CR :: char where "CR = CHR 0x0D"
definition TAB :: char where "TAB = CHR 0x09"

fun split_on :: "char \<Rightarrow> string \<Rightarrow> string list" where
  "split_on sep [] = [[]]"
| "split_on sep (c # cs) =
     (if c = sep then [] # split_on sep cs
      else (case split_on sep cs of
              [] \<Rightarrow> [[c]]
            | field # fields \<Rightarrow> (c # field) # fields))"

definition endswith :: "string \<Rightarrow> string \<Rightarrow> bool" where
  "endswith s t = (length t \<le> length s \<and> drop (length s - length t) s = t)"

definition rstrip_char :: "char \<Rightarrow> string \<Rightarrow> string" where
  "rstrip_char c s = rev (dropWhile (\<lambda>x. x = c) (rev s))"

text \<open>
  A character of a text is a code point below 256. \<^verbatim>\<open>lower()\<close> maps the capital letters to the
  small ones: A to Z, and for a \<^verbatim>\<open>unicode\<close> string also the capital letters of the Latin-1
  block, 0xC0 to 0xDE without the multiplication sign 0xD7. (On a byte string \<^verbatim>\<open>lower()\<close> maps
  A to Z only; the byte strings lxml hands over are ASCII, as are the language codes of
  BCP 47, so the two mappings agree on them.)
\<close>

definition lower_char :: "char \<Rightarrow> char" where
  "lower_char c =
     (let n = (of_char c :: nat)
      in if (65 \<le> n \<and> n \<le> 90) \<or> (192 \<le> n \<and> n \<le> 222 \<and> n \<noteq> 215)
         then char_of (n + 32) else c)"

definition lower :: "string \<Rightarrow> string" where
  "lower s = map lower_char s"

text \<open>
  The characters \<^verbatim>\<open>strip()\<close> removes from both ends: tab, line feed, vertical tab, form feed,
  carriage return and space for a byte string, and also the separators 0x1C to 0x1F, NEL
  (0x85) and the no-break space (0xA0) for a \<^verbatim>\<open>unicode\<close> string in the 8-bit range.
\<close>

definition isspace :: "char \<Rightarrow> bool" where
  "isspace c =
     (let n = (of_char c :: nat)
      in (9 \<le> n \<and> n \<le> 13) \<or> (28 \<le> n \<and> n \<le> 32) \<or> n = 133 \<or> n = 160)"

definition strip :: "string \<Rightarrow> string" where
  "strip s = rev (dropWhile isspace (rev (dropWhile isspace s)))"

fun join :: "string \<Rightarrow> string list \<Rightarrow> string" where
  "join sep [] = []"
| "join sep [x] = x"
| "join sep (x # y # ys) = x @ sep @ join sep (y # ys)"

fun str_nat :: "nat \<Rightarrow> string" where
  "str_nat n =
     (if n < 10 then [char_of (48 + n)]
      else str_nat (n div 10) @ [char_of (48 + n mod 10)])"

subsection \<open>Locales\<close>

definition skip_invalid_tmx_data :: bool where
  "skip_invalid_tmx_data = False"

text \<open>\<^verbatim>\<open>lang_code.lower().split('-')[0]\<close>; \<^verbatim>\<open>split\<close> never returns an empty list.\<close>

definition parse_locale :: "string \<Rightarrow> string" where
  "parse_locale lang_code =
     (case split_on (CHR ''-'') (lower lang_code) of [] \<Rightarrow> [] | first # rest \<Rightarrow> first)"

definition is_same_language :: "string \<Rightarrow> string \<Rightarrow> bool" where
  "is_same_language locale1 locale2 = (locale1 = locale2)"

text \<open>
  \<^verbatim>\<open>_try_decode\<close> returns a \<^verbatim>\<open>unicode\<close> object as it is and decodes a byte string as UTF-8,
  turning the codec's \<^verbatim>\<open>UnicodeError\<close> into \<^verbatim>\<open>ValueError\<close>. The codec is the argument \<open>decode\<close>,
  \<open>None\<close> where it raises. \<^verbatim>\<open>_try_encode\<close> applies the encoder \<open>encode\<close> of the same codec.
\<close>

definition try_decode :: "(string \<Rightarrow> string option) \<Rightarrow> string \<Rightarrow> error + string" where
  "try_decode decode text = (case decode text of None \<Rightarrow> Inl ValueError | Some u \<Rightarrow> Inr u)"

definition try_encode :: "(string \<Rightarrow> string) \<Rightarrow> string \<Rightarrow> string" where
  "try_encode encode text = encode text"

subsection \<open>ParallelPhraseParser\<close>

definition SENTENCE_BUFFER_SIZE :: nat where
  "SENTENCE_BUFFER_SIZE = 1024 * 1024"

definition MAX_SKIPPED_PHRASES :: nat where
  "MAX_SKIPPED_PHRASES = 1024"

text \<open>
  The fields of the base class, with the class attribute \<^verbatim>\<open>FILE_FORMAT\<close> of the subclass and
  the input stream, which is the text not yet read. An entry of \<open>skipped_phrases\<close> is
  \<^verbatim>\<open>(line number, src_text, dst_text, error_message)\<close>, the texts possibly \<^verbatim>\<open>None\<close>.
\<close>

record parser =
  FILE_FORMAT :: string
  line_index :: int
  next_read_line_index :: int
  skipped_phrases :: "(int \<times> string option \<times> string option \<times> string) list"
  input_stream :: string

definition current_line_number :: "'a parser_scheme \<Rightarrow> int" where
  "current_line_number self = line_index self + 1"

definition invalid_format_error :: "'a parser_scheme \<Rightarrow> string \<Rightarrow> bool \<Rightarrow> error" where
  "invalid_format_error self message show_line_index =
     InvalidFileFormatError (FILE_FORMAT self)
       (if show_line_index then Some (current_line_number self) else None) message"

text \<open>
  \<^verbatim>\<open>stream.readline(size)\<close> of a file object: the characters up to and including the first
  line feed, at most \<open>limit\<close> of them, and the rest of the stream.
\<close>

definition stream_readline :: "nat \<Rightarrow> string \<Rightarrow> string \<times> string" where
  "stream_readline limit s =
     (let k = length (takeWhile (\<lambda>c. c \<noteq> NL) s)
      in if k < length s \<and> k + 1 \<le> limit then (take (k + 1) s, drop (k + 1) s)
         else (take limit s, drop limit s))"

text \<open>\<^verbatim>\<open>line.rstrip('\n').rstrip('\r').rstrip('\n')\<close>.\<close>

definition line_text :: "string \<Rightarrow> string" where
  "line_text line = rstrip_char NL (rstrip_char CR (rstrip_char NL line))"

definition readline ::
  "(string \<Rightarrow> string option) \<Rightarrow> 'a parser_scheme \<Rightarrow> bool \<Rightarrow> bool \<Rightarrow>
   error + (string \<times> 'a parser_scheme)" where
  "readline decode self check_sentence_buffer rstrip =
     (let self1 = self\<lparr>line_index := next_read_line_index self\<rparr>;
          (line, rest) = stream_readline SENTENCE_BUFFER_SIZE (input_stream self1);
          self2 = self1\<lparr>input_stream := rest\<rparr>
      in if line = [] then Inl ParseFinished
         else
           let ends = (endswith line [NL] \<or> endswith line [NL, CR]);
               self3 = (if ends
                        then self2\<lparr>next_read_line_index := next_read_line_index self2 + 1\<rparr>
                        else self2)
           in if ends \<and> check_sentence_buffer \<and> length line = SENTENCE_BUFFER_SIZE
              then Inl (invalid_format_error self3
                     (''Length of the line exceeds the '' @ str_nat SENTENCE_BUFFER_SIZE
                        @ '' characters limit.'') True)
              else
                let line1 = (if rstrip then line_text line else line)
                in (case try_decode decode line1 of
                      Inl e \<Rightarrow> Inl e
                    | Inr text \<Rightarrow> Inr (text, self3)))"

subsection \<open>TsvParser and TsvExporter\<close>

record tsv_parser = parser +
  src_lang :: string
  dst_lang :: string

definition TsvParser_init :: "string \<Rightarrow> string \<Rightarrow> string \<Rightarrow> tsv_parser" where
  "TsvParser_init src_lang_code dst_lang_code stream =
     \<lparr>FILE_FORMAT = ''TSV'', line_index = 0, next_read_line_index = 0, skipped_phrases = [],
      input_stream = stream,
      src_lang = parse_locale src_lang_code, dst_lang = parse_locale dst_lang_code\<rparr>"

text \<open>
  \<^verbatim>\<open>pair = line.split('\t')\<close>; a list of two fields is returned as the tuple of the two.
\<close>

definition TsvParser_next_parallel_phrase_pair ::
  "(string \<Rightarrow> string option) \<Rightarrow> tsv_parser \<Rightarrow> error + ((string \<times> string) \<times> tsv_parser)" where
  "TsvParser_next_parallel_phrase_pair decode self =
     (case readline decode self True True of
        Inl e \<Rightarrow> Inl e
      | Inr (line, self1) \<Rightarrow>
          (case split_on TAB line of
             [src, dst] \<Rightarrow> Inr ((src, dst), self1)
           | pair \<Rightarrow>
               Inl (invalid_format_error self1 ''Each line can only contains 2 phrases.'' True)))"

text \<open>
  Iterating over a parser calls \<^verbatim>\<open>next\<close> until \<^verbatim>\<open>ParseFinished\<close>. The result lists the pairs
  yielded, and the exception that ended the iteration when it was not \<^verbatim>\<open>ParseFinished\<close>.
\<close>

function TsvParser_iterate ::
  "(string \<Rightarrow> string option) \<Rightarrow> tsv_parser \<Rightarrow> (string \<times> string) list \<times> error option" where
  "TsvParser_iterate decode self =
     (case TsvParser_next_parallel_phrase_pair decode self of
        Inl e \<Rightarrow> ([], if e = ParseFinished then None else Some e)
      | Inr (pair, self1) \<Rightarrow>
          (case TsvParser_iterate decode self1 of (pairs, r) \<Rightarrow> (pair # pairs, r)))"
  by pat_completeness auto
termination
proof (relation "measure (\<lambda>(decode, self). length (input_stream self))", goal_cases)
  case 1
  show ?case by simp
next
  case (2 decode self r pair self1)
  have "readline decode s c b = Inr (l, s') \<Longrightarrow> length (input_stream s') < length (input_stream s)"
    for s s' c b l
    by (auto simp: readline_def Let_def stream_readline_def SENTENCE_BUFFER_SIZE_def
        split: prod.splits if_splits sum.splits)
  then show ?case using 2
    by (auto simp: TsvParser_next_parallel_phrase_pair_def split: sum.splits prod.splits list.splits)
qed

declare TsvParser_iterate.simps [simp del]

text \<open>\<^verbatim>\<open>u''.join([src, '\t', dst, '\n'])\<close>, encoded and written to the output stream.\<close>

definition TsvExporter_feed_parallel_phrase_pair ::
  "(string \<Rightarrow> string) \<Rightarrow> string \<Rightarrow> string \<Rightarrow> string \<Rightarrow> string" where
  "TsvExporter_feed_parallel_phrase_pair encode tsv_stream src dst =
     tsv_stream @ try_encode encode (join [] [src, [TAB], dst, [NL]])"

definition TsvExporter_export :: "(string \<Rightarrow> string) \<Rightarrow> (string \<times> string) list \<Rightarrow> string" where
  "TsvExporter_export encode pairs =
     foldl (\<lambda>out (src, dst). TsvExporter_feed_parallel_phrase_pair encode out src dst) [] pairs"

subsection \<open>The XML events of lxml\<close>

text \<open>
  \<^verbatim>\<open>etree.XMLPullParser(events=('start', 'end'))\<close> belongs to the library \<^verbatim>\<open>lxml\<close>. An event is an
  action and an element; an element has a tag, attributes and mixed content, from which
  \<^verbatim>\<open>getchildren()\<close> takes the child elements and \<^verbatim>\<open>itertext()\<close> the texts in document order.
  The pull parser itself is a parameter of the model: a state of some type \<open>'x\<close>, a function
  \<open>feed\<close> that takes the state and a chunk and answers either the message of an
  \<^verbatim>\<open>XMLSyntaxError\<close> or the new state with the events the chunk completed, and a function
  \<open>close\<close> that answers the message of the \<^verbatim>\<open>XMLSyntaxError\<close> it raises, if any.
\<close>

datatype action = Start | End

datatype element = Element string "(string \<times> string) list" "content list"
  and content = Text string | Child element

fun tag :: "element \<Rightarrow> string" where
  "tag (Element t attrib cs) = t"

fun element_get :: "element \<Rightarrow> string \<Rightarrow> string option" where
  "element_get (Element t attrib cs) key = map_of attrib key"

fun child_elements :: "content list \<Rightarrow> element list" where
  "child_elements [] = []"
| "child_elements (Text s # cs) = child_elements cs"
| "child_elements (Child e # cs) = e # child_elements cs"

fun getchildren :: "element \<Rightarrow> element list" where
  "getchildren (Element t attrib cs) = child_elements cs"

fun itertext :: "element \<Rightarrow> string list"
  and itertext_content :: "content list \<Rightarrow> string list" where
  "itertext (Element t attrib cs) = itertext_content cs"
| "itertext_content [] = []"
| "itertext_content (Text s # cs) = s # itertext_content cs"
| "itertext_content (Child e # cs) = itertext e @ itertext_content cs"

type_synonym event = "action \<times> element"

type_synonym 'x xml_feed = "'x \<Rightarrow> string \<Rightarrow> string + ('x \<times> event list)"

type_synonym 'x xml_close = "'x \<Rightarrow> string option"

subsection \<open>TmxParser\<close>

definition TU_BUF_SIZE :: nat where
  "TU_BUF_SIZE = 1024"

definition PARENT_TAG_NAME :: "(string \<times> string) list" where
  "PARENT_TAG_NAME =
     [(''tmx'', ''''), (''header'', ''tmx''), (''body'', ''tmx''), (''tu'', ''body''),
      (''tuv'', ''tu''), (''seg'', ''tuv'')]"

definition XML_LANG :: string where
  "XML_LANG = ''{http://www.w3.org/XML/1998/namespace}lang''"

text \<open>
  A buffered pair is the tuple \<^verbatim>\<open>(src, dst)\<close> of \<^verbatim>\<open>_parse_tu_element\<close>, whose components start
  as \<^verbatim>\<open>None\<close>.
\<close>

record 'x tmx_parser = parser +
  tmx_src_lang :: string
  tmx_dst_lang :: string
  xml_parser :: 'x
  buffered_parsed_pairs :: "(string option \<times> string option) list"
  buffered_pairs_index :: nat
  tag_name_stack :: "string list"
  header_inited :: bool
  body_inited :: bool

definition TmxParser_init :: "string \<Rightarrow> string \<Rightarrow> string \<Rightarrow> 'x \<Rightarrow> 'x tmx_parser" where
  "TmxParser_init src_lang_code dst_lang_code stream x =
     \<lparr>FILE_FORMAT = ''TMX'', line_index = 0, next_read_line_index = 0, skipped_phrases = [],
      input_stream = stream,
      tmx_src_lang = parse_locale src_lang_code, tmx_dst_lang = parse_locale dst_lang_code,
      xml_parser = x, buffered_parsed_pairs = [], buffered_pairs_index = 0,
      tag_name_stack = [''''], header_inited = False, body_inited = False\<rparr>"

text \<open>Python's truth value of an optional string: \<^verbatim>\<open>None\<close> and the empty string are false.\<close>

definition truthy :: "string option \<Rightarrow> bool" where
  "truthy s = (case s of None \<Rightarrow> False | Some t \<Rightarrow> t \<noteq> [])"

definition parse_tuv_element :: "element \<Rightarrow> string \<times> string option" where
  "parse_tuv_element tuv_element =
     (let lang = element_get tuv_element XML_LANG;
          lang1 = (if truthy lang then map_option parse_locale lang else lang);
          tuv_text = join '' '' (map strip (filter (\<lambda>text. strip text \<noteq> []) (itertext tuv_element)))
      in (strip tuv_text, lang1))"

fun parse_tu_children ::
  "string \<Rightarrow> string \<Rightarrow> string option \<times> string option \<Rightarrow> element list \<Rightarrow>
   string option \<times> string option" where
  "parse_tu_children sl dl (src, dst) [] = (src, dst)"
| "parse_tu_children sl dl (src, dst) (child_element # rest) =
     (if tag child_element \<noteq> ''tuv'' then parse_tu_children sl dl (src, dst) rest
      else
        (case parse_tuv_element child_element of
           (text, lang) \<Rightarrow>
             if text \<noteq> [] \<and> truthy lang then
               (if is_same_language (the lang) sl
                then parse_tu_children sl dl (Some text, dst) rest
                else if is_same_language (the lang) dl
                then parse_tu_children sl dl (src, Some text) rest
                else parse_tu_children sl dl (src, dst) rest)
             else parse_tu_children sl dl (src, dst) rest))"

definition parse_tu_element ::
  "('x, 'a) tmx_parser_scheme \<Rightarrow> element \<Rightarrow> string option \<times> string option \<times> string option" where
  "parse_tu_element self tu_element =
     (case parse_tu_children (tmx_src_lang self) (tmx_dst_lang self) (None, None)
             (getchildren tu_element) of
        (src, dst) \<Rightarrow>
          if \<not> truthy src \<and> \<not> truthy dst
          then (src, dst, Some ''No sentence found in source and target languages in this <tu>'')
          else if \<not> truthy src
          then (src, dst, Some ''No sentence found in source language in this <tu>'')
          else if \<not> truthy dst
          then (src, dst, Some ''No sentence found in target language in this <tu>'')
          else (src, dst, None))"

definition skip_phrase_or_fail_parsing ::
  "('x, 'a) tmx_parser_scheme \<Rightarrow> string option \<Rightarrow> string option \<Rightarrow> string \<Rightarrow>
   error + ('x, 'a) tmx_parser_scheme" where
  "skip_phrase_or_fail_parsing self src_text dst_text error_message =
     (if length (skipped_phrases self) < MAX_SKIPPED_PHRASES
      then Inr (self\<lparr>skipped_phrases :=
                  skipped_phrases self @ [(current_line_number self, src_text, dst_text, error_message)]\<rparr>)
      else Inl (invalid_format_error self
             (''Too many sentence pair errors('' @ str_nat (length (skipped_phrases self))
                @ '') so far. The TMX may be broken.'') True))"

definition parse_header_element ::
  "('x, 'a) tmx_parser_scheme \<Rightarrow> element \<Rightarrow> error + ('x, 'a) tmx_parser_scheme" where
  "parse_header_element self element =
     (let src_lang = element_get element ''srclang''
      in if \<not> truthy src_lang then Inr self
         else
           let src_locale = parse_locale (the src_lang)
           in if \<not> is_same_language src_locale (tmx_src_lang self)
              then Inl (invalid_format_error self
                     (''Language in header doesn't match language declared. Expecting ''
                        @ tmx_src_lang self @ '', found '' @ src_locale) True)
              else Inr self)"

text \<open>\<^verbatim>\<open>self._tag_name_stack[-1]\<close> is the last entry; on an empty list it is \<^verbatim>\<open>IndexError\<close>.\<close>

definition stack_top :: "string list \<Rightarrow> error + string" where
  "stack_top stack = (if stack = [] then Inl IndexError else Inr (last stack))"

definition verify_element ::
  "('x, 'a) tmx_parser_scheme \<Rightarrow> action \<Rightarrow> string \<Rightarrow> error + ('x, 'a) tmx_parser_scheme" where
  "verify_element self act t =
     (case map_of PARENT_TAG_NAME t of
        None \<Rightarrow> Inr self
      | Some parent \<Rightarrow>
          (case act of
             Start \<Rightarrow>
               (case stack_top (tag_name_stack self) of
                  Inl e \<Rightarrow> Inl e
                | Inr top_tag \<Rightarrow>
                    if top_tag \<noteq> parent
                    then Inl (invalid_format_error self
                           (''Invalid tag structure: <'' @ t @ ''> should go inside <'' @ parent
                              @ ''>, not <'' @ top_tag @ ''>.'') True)
                    else if t = ''header'' \<and> header_inited self
                    then Inl (invalid_format_error self ''Duplicate header tag.'' True)
                    else
                      let self1 = (if t = ''header'' then self\<lparr>header_inited := True\<rparr> else self)
                      in if t = ''body'' \<and> body_inited self1
                         then Inl (invalid_format_error self1 ''Duplicate body tag.'' True)
                         else if t = ''body'' \<and> \<not> header_inited self1
                         then Inl (invalid_format_error self1 ''header should before body.'' True)
                         else Inr (self1\<lparr>tag_name_stack := tag_name_stack self1 @ [t]\<rparr>))
           | End \<Rightarrow>
               (case stack_top (tag_name_stack self) of
                  Inl e \<Rightarrow> Inl e
                | Inr top_tag \<Rightarrow>
                    if top_tag \<noteq> t
                    then Inl (invalid_format_error self (''Unclosed tag '' @ top_tag @ ''.'') True)
                    else Inr (self\<lparr>tag_name_stack := butlast (tag_name_stack self)\<rparr>))))"

text \<open>
  The body of the loop over the events in \<^verbatim>\<open>_read_next\<close>. After a \<^verbatim>\<open>tu\<close> the method deletes
  earlier siblings from the tree that lxml keeps once there are \<^verbatim>\<open>_TU_BUF_SIZE\<close> of them; the
  events carry their elements as values, so that has no counterpart here.
\<close>

definition process_event ::
  "('x, 'a) tmx_parser_scheme \<Rightarrow> event \<Rightarrow> error + ('x, 'a) tmx_parser_scheme" where
  "process_event self ev =
     (case ev of (act, element) \<Rightarrow>
        err_bind (verify_element self act (tag element)) (\<lambda>self1.
          if act = End then
            err_bind (if tag element = ''header'' then parse_header_element self1 element
                      else Inr self1) (\<lambda>self2.
              if tag element = ''tu'' then
                (case parse_tu_element self2 element of
                   (src, dst, error_message) \<Rightarrow>
                     if \<not> truthy error_message
                     then Inr (self2\<lparr>buffered_parsed_pairs :=
                                 buffered_parsed_pairs self2 @ [(src, dst)]\<rparr>)
                     else if skip_invalid_tmx_data
                     then skip_phrase_or_fail_parsing self2 src dst (the error_message)
                     else Inl (invalid_format_error self2 (the error_message) True))
              else Inr self2)
          else Inr self1))"

fun process_events ::
  "('x, 'a) tmx_parser_scheme \<Rightarrow> event list \<Rightarrow> error + ('x, 'a) tmx_parser_scheme" where
  "process_events self [] = Inr self"
| "process_events self (ev # evs) =
     (case process_event self ev of
        Inl e \<Rightarrow> Inl e
      | Inr self1 \<Rightarrow> process_events self1 evs)"

text \<open>
  The \<^verbatim>\<open>while True\<close> loop of \<^verbatim>\<open>_read_next\<close>. When the stream is finished the pull parser is
  closed, which can raise its own \<^verbatim>\<open>XMLSyntaxError\<close>, before \<^verbatim>\<open>ParseFinished\<close> is raised again.
  An \<^verbatim>\<open>XMLSyntaxError\<close> of \<^verbatim>\<open>feed\<close> becomes an \<^verbatim>\<open>InvalidFileFormatError\<close> without a line number.
\<close>

function read_next_loop ::
  "'x xml_feed \<Rightarrow> 'x xml_close \<Rightarrow> (string \<Rightarrow> string option) \<Rightarrow>
   ('x, 'a) tmx_parser_scheme \<Rightarrow> nat \<Rightarrow> error + ('x, 'a) tmx_parser_scheme" where
  "read_next_loop feed close decode self buff_total_size =
     (case readline decode self False False of
        Inl e \<Rightarrow>
          (if e = ParseFinished
           then (case close (xml_parser self) of
                   Some message \<Rightarrow> Inl (XMLSyntaxError message)
                 | None \<Rightarrow> Inl ParseFinished)
           else Inl e)
      | Inr (buff, self1) \<Rightarrow>
          (case feed (xml_parser self1) buff of
             Inl message \<Rightarrow> Inl (invalid_format_error self1 message False)
           | Inr (x, events) \<Rightarrow>
               (case process_events (self1\<lparr>xml_parser := x\<rparr>) events of
                  Inl e \<Rightarrow> Inl e
                | Inr self2 \<Rightarrow>
                    if buffered_parsed_pairs self2 \<noteq> [] then Inr self2
                    else
                      let total = buff_total_size + length buff
                      in if total > SENTENCE_BUFFER_SIZE
                         then Inl (invalid_format_error self2
                                (''Exceeded buffer limit '' @ str_nat SENTENCE_BUFFER_SIZE @ ''.'')
                                True)
                         else read_next_loop feed close decode self2 total)))"
  by pat_completeness auto
termination
proof (relation "measure (\<lambda>(feed, close, decode, self, n). length (input_stream self))", goal_cases)
  case 1
  show ?case by simp
next
  case (2 feed close decode self buff_total_size rl buff self1 fd x events self2 total)
  have ve: "verify_element s a t = Inr s' \<Longrightarrow> input_stream s' = input_stream s"
    for s s' a t
    by (auto simp: verify_element_def Let_def
        split: option.splits action.splits sum.splits if_splits)
  have he: "parse_header_element s e = Inr s' \<Longrightarrow> input_stream s' = input_stream s"
    for s s' e
    by (auto simp: parse_header_element_def Let_def split: if_splits)
  have sk: "skip_phrase_or_fail_parsing s a b m = Inr s' \<Longrightarrow> input_stream s' = input_stream s"
    for s s' a b m
    by (auto simp: skip_phrase_or_fail_parsing_def split: if_splits)
  have pe: "process_event s ev = Inr s' \<Longrightarrow> input_stream s' = input_stream s"
    for s s' ev
    by (auto simp: process_event_def err_bind_def split: prod.splits sum.splits if_splits
        dest!: ve he sk)
  have pes: "process_events s evs = Inr s' \<Longrightarrow> input_stream s' = input_stream s"
    for s s' evs
    by (induction evs arbitrary: s) (auto split: sum.splits dest!: pe)
  have rl: "readline decode s c r = Inr (l, s') \<Longrightarrow> length (input_stream s') < length (input_stream s)"
    for s s' c r l
    by (auto simp: readline_def Let_def stream_readline_def SENTENCE_BUFFER_SIZE_def
        split: prod.splits if_splits sum.splits)
  from 2(1,2) have "readline decode self False False = Inr (buff, self1)" by simp
  then have "length (input_stream self1) < length (input_stream self)" by (rule rl)
  moreover from 2(5) have "input_stream self2 = input_stream (self1\<lparr>xml_parser := x\<rparr>)" by (rule pes)
  then have "input_stream self2 = input_stream self1" by simp
  ultimately show ?case by simp
qed

declare read_next_loop.simps [simp del]

text \<open>
  \<^verbatim>\<open>_read_next\<close> resets the buffer of parsed pairs and its index and runs the loop with
  \<^verbatim>\<open>buff_total_size = 0\<close>; \<^verbatim>\<open>next_parallel_phrase_pair\<close> calls it when the buffer is used up and
  returns the buffered pair at the index.
\<close>

definition read_next ::
  "'x xml_feed \<Rightarrow> 'x xml_close \<Rightarrow> (string \<Rightarrow> string option) \<Rightarrow>
   ('x, 'a) tmx_parser_scheme \<Rightarrow> error + ('x, 'a) tmx_parser_scheme" where
  "read_next feed close decode self =
     read_next_loop feed close decode
       (self\<lparr>buffered_pairs_index := 0, buffered_parsed_pairs := []\<rparr>) 0"

definition TmxParser_next_parallel_phrase_pair ::
  "'x xml_feed \<Rightarrow> 'x xml_close \<Rightarrow> (string \<Rightarrow> string option) \<Rightarrow>
   ('x, 'a) tmx_parser_scheme \<Rightarrow>
   error + ((string option \<times> string option) \<times> ('x, 'a) tmx_parser_scheme)" where
  "TmxParser_next_parallel_phrase_pair feed close decode self =
     err_bind (if length (buffered_parsed_pairs self) \<le> buffered_pairs_index self
               then read_next feed close decode self else Inr self) (\<lambda>self1.
       if buffered_pairs_index self1 < length (buffered_parsed_pairs self1)
       then Inr (buffered_parsed_pairs self1 ! buffered_pairs_index self1,
                 self1\<lparr>buffered_pairs_index := buffered_pairs_index self1 + 1\<rparr>)
       else Inl IndexError)"

subsection \<open>TmxExporter\<close>

text \<open>
  The two templates with their \<^verbatim>\<open>{}\<close> fields filled, and the text \<^verbatim>\<open>finalize\<close> writes.
\<close>

definition TMX_INIT_TMPL :: "string \<Rightarrow> string" where
  \<open>TMX_INIT_TMPL src =
     ''<?xml version="1.0" encoding="UTF-8" ?>'' @ [NL] @
     ''<tmx version="1.4">'' @ [NL] @
     ''<header srclang="'' @ src @ ''"'' @ [NL] @
     ''        adminlang="en-us"'' @ [NL] @
     ''        o-tmf="unknown"'' @ [NL] @
     ''        segtype="sentence"'' @ [NL] @
     ''        creationtool="Uplug"'' @ [NL] @
     ''        creationtoolversion="unknown"'' @ [NL] @
     ''        datatype="PlainText" />'' @ [NL] @
     ''  <body>'' @ [NL]\<close>

definition TMX_PAIR_TMPL :: "string \<Rightarrow> string \<Rightarrow> string \<Rightarrow> string \<Rightarrow> string" where
  \<open>TMX_PAIR_TMPL src_code src dst_code dst =
     ''    <tu>'' @ [NL] @
     ''      <tuv xml:lang="'' @ src_code @ ''"><seg>'' @ src @ ''</seg></tuv>'' @ [NL] @
     ''      <tuv xml:lang="'' @ dst_code @ ''"><seg>'' @ dst @ ''</seg></tuv>'' @ [NL] @
     ''    </tu>'' @ [NL]\<close>

definition TMX_FINAL :: string where
  "TMX_FINAL = ''  </body>'' @ [NL] @ ''</tmx>''"

record tmx_exporter =
  exp_src_lang :: string
  exp_dst_lang :: string
  src_lang_code :: string
  dst_lang_code :: string
  tmx_stream :: string

definition TmxExporter_init :: "string \<Rightarrow> string \<Rightarrow> tmx_exporter" where
  "TmxExporter_init src_code dst_code =
     \<lparr>exp_src_lang = parse_locale src_code, exp_dst_lang = parse_locale dst_code,
      src_lang_code = src_code, dst_lang_code = dst_code, tmx_stream = []\<rparr>"

definition TmxExporter_write :: "(string \<Rightarrow> string) \<Rightarrow> tmx_exporter \<Rightarrow> string \<Rightarrow> tmx_exporter" where
  "TmxExporter_write encode self data =
     self\<lparr>tmx_stream := tmx_stream self @ try_encode encode data\<rparr>"

definition TmxExporter_feed_parallel_phrase_pair ::
  "(string \<Rightarrow> string) \<Rightarrow> tmx_exporter \<Rightarrow> string \<Rightarrow> string \<Rightarrow> tmx_exporter" where
  "TmxExporter_feed_parallel_phrase_pair encode self src dst =
     TmxExporter_write encode self
       (TMX_PAIR_TMPL (src_lang_code self) src (dst_lang_code self) dst)"

definition TmxExporter_initialize :: "(string \<Rightarrow> string) \<Rightarrow> tmx_exporter \<Rightarrow> tmx_exporter" where
  "TmxExporter_initialize encode self =
     TmxExporter_write encode self (TMX_INIT_TMPL (src_lang_code self))"

definition TmxExporter_finalize :: "(string \<Rightarrow> string) \<Rightarrow> tmx_exporter \<Rightarrow> tmx_exporter" where
  "TmxExporter_finalize encode self = TmxExporter_write encode self TMX_FINAL"

text \<open>
  An exporter used as in \<^verbatim>\<open>convert_input_files\<close>: \<^verbatim>\<open>initialize\<close>, one
  \<^verbatim>\<open>feed_parallel_phrase_pair\<close> per pair, \<^verbatim>\<open>finalize\<close>.
\<close>

definition TmxExporter_export ::
  "(string \<Rightarrow> string) \<Rightarrow> string \<Rightarrow> string \<Rightarrow> (string \<times> string) list \<Rightarrow> string" where
  "TmxExporter_export encode src_code dst_code pairs =
     tmx_stream (TmxExporter_finalize encode
       (foldl (\<lambda>self (src, dst). TmxExporter_feed_parallel_phrase_pair encode self src dst)
          (TmxExporter_initialize encode (TmxExporter_init src_code dst_code)) pairs))"

subsection \<open>The TMX wire format of the specification\<close>

text \<open>
  This definition follows the words of the specification, section 6, not the code: the
  document it prints for the export side, as the list of the pieces an exporter writes (the
  opening lines, one piece per pair, the closing lines). The specification prints the
  attributes of \<^verbatim>\<open>header\<close> on one line, a single space between them; the separator is the
  argument \<open>sep\<close>, so that the layout of the code can be compared with it.
\<close>

definition spec_wire_header :: "string \<Rightarrow> string \<Rightarrow> string" where
  \<open>spec_wire_header sep src =
     ''<header srclang="'' @ src @ ''"'' @ sep @
     ''adminlang="en-us"'' @ sep @
     ''o-tmf="unknown"'' @ sep @
     ''segtype="sentence"'' @ sep @
     ''creationtool="Uplug"'' @ sep @
     ''creationtoolversion="unknown"'' @ sep @
     ''datatype="PlainText" />''\<close>

definition spec_wire_open :: "string \<Rightarrow> string \<Rightarrow> string" where
  \<open>spec_wire_open sep src =
     ''<?xml version="1.0" encoding="UTF-8" ?>'' @ [NL] @
     ''<tmx version="1.4">'' @ [NL] @
     spec_wire_header sep src @ [NL] @
     ''  <body>'' @ [NL]\<close>

definition spec_wire_tu :: "string \<Rightarrow> string \<Rightarrow> string \<times> string \<Rightarrow> string" where
  \<open>spec_wire_tu src dst pair =
     ''    <tu>'' @ [NL] @
     ''      <tuv xml:lang="'' @ src @ ''"><seg>'' @ fst pair @ ''</seg></tuv>'' @ [NL] @
     ''      <tuv xml:lang="'' @ dst @ ''"><seg>'' @ snd pair @ ''</seg></tuv>'' @ [NL] @
     ''    </tu>'' @ [NL]\<close>

definition spec_wire_close :: string where
  \<open>spec_wire_close = ''  </body>'' @ [NL] @ ''</tmx>''\<close>

definition spec_wire_pieces ::
  "string \<Rightarrow> string \<Rightarrow> string \<Rightarrow> (string \<times> string) list \<Rightarrow> string list" where
  "spec_wire_pieces sep src dst pairs =
     [spec_wire_open sep src] @ map (spec_wire_tu src dst) pairs @ [spec_wire_close]"

section \<open>Properties of the splitter\<close>

lemma assign_loop_in_range:
  assumes "counts_nonneg c" "0 \<le> i" "i < counts_sum c"
  shows "\<exists>u. assign_loop c i ML_USES = Some u \<and> u \<in> set ML_USES \<and> 0 < c u"
  using assms unfolding counts_nonneg_def counts_sum_def ML_USES_def
  by auto

lemma select_sum: "u \<in> set ML_USES \<Longrightarrow> counts_sum (select_ml_use c u) = counts_sum c - 1"
  by (auto simp: counts_sum_def select_ml_use_def ML_USES_def)

lemma select_nonneg: "counts_nonneg c \<Longrightarrow> 0 < c u \<Longrightarrow> counts_nonneg (select_ml_use c u)"
  by (auto simp: counts_nonneg_def select_ml_use_def)

lemma assign_ml_use_ok:
  assumes "counts_nonneg c" "0 < counts_sum c" "\<forall>lo hi. lo \<le> hi \<longrightarrow> lo \<le> r lo hi \<and> r lo hi \<le> hi"
  shows "\<exists>u. assign_ml_use c r = Inr u \<and> assign_loop c (r 0 (counts_sum c - 1)) ML_USES = Some u \<and> u \<in> set ML_USES \<and> 0 < c u"
proof -
  have "0 \<le> r 0 (counts_sum c - 1)" "r 0 (counts_sum c - 1) < counts_sum c"
    using assms(3)[rule_format, of 0 "counts_sum c - 1"] assms(2) by auto
  from assign_loop_in_range[OF assms(1) this] obtain u where
    "assign_loop c (r 0 (counts_sum c - 1)) ML_USES = Some u" "u \<in> set ML_USES" "0 < c u" by blast
  then show ?thesis using assms(2) by (simp add: assign_ml_use_def)
qed

lemma autosplit_loop_run:
  assumes "randint_ok rand" "counts_nonneg c" "int (length ps) \<le> counts_sum c"
  shows "\<exists>c' fed'. autosplit_loop rand k c fed ps = Inr (c', fed') \<and> counts_nonneg c'
     \<and> counts_sum c' = counts_sum c - int (length ps)
     \<and> (\<forall>u. int (length (fed' u)) + c' u = int (length (fed u)) + c u)"
  using assms
proof (induction ps arbitrary: k c fed)
  case Nil
  then show ?case by simp
next
  case (Cons p ps)
  have pos: "0 < counts_sum c" using Cons.prems(3) by simp
  have r: "\<forall>lo hi. lo \<le> hi \<longrightarrow> lo \<le> rand k lo hi \<and> rand k lo hi \<le> hi"
    using Cons.prems(1) by (simp add: randint_ok_def)
  from assign_ml_use_ok[OF Cons.prems(2) pos r] obtain u where
    u: "assign_ml_use c (rand k) = Inr u" "u \<in> set ML_USES" "0 < c u" by blast
  let ?c = "select_ml_use c u" and ?fed = "fed(u := fed u @ [p])"
  have "counts_nonneg ?c" using select_nonneg Cons.prems(2) u(3) by blast
  moreover have s: "counts_sum ?c = counts_sum c - 1" using select_sum u(2) by blast
  moreover have "int (length ps) \<le> counts_sum ?c" using s Cons.prems(3) by simp
  ultimately obtain c' fed' where
    IH: "autosplit_loop rand (Suc k) ?c ?fed ps = Inr (c', fed')" "counts_nonneg c'"
      "counts_sum c' = counts_sum ?c - int (length ps)"
      "\<forall>v. int (length (fed' v)) + c' v = int (length (?fed v)) + ?c v"
    using Cons.IH[OF Cons.prems(1), of ?c "Suc k" ?fed] by blast
  have "\<forall>v. int (length (?fed v)) + ?c v = int (length (fed v)) + c v"
    by (simp add: select_ml_use_def)
  then show ?case using IH u(1) s by simp
qed

lemma length_filter_upto:
  assumes "0 \<le> lo" "lo \<le> hi" "hi \<le> R"
  shows "length (filter (\<lambda>i. lo \<le> i \<and> i < hi) [0..R - 1]) = nat (hi - lo)"
proof -
  have "length (filter (\<lambda>i. lo \<le> i \<and> i < hi) [0..R - 1])
        = card {i \<in> set [0..R - 1]. lo \<le> i \<and> i < hi}"
    by (simp add: distinct_length_filter Int_def conj_commute)
  also have "{i \<in> set [0..R - 1]. lo \<le> i \<and> i < hi} = {lo..<hi}"
    using assms by auto
  finally show ?thesis by simp
qed

lemma assign_loop_cases:
  assumes "counts_nonneg c"
  shows "assign_loop c i ML_USES = Some TRAIN \<longleftrightarrow> i < c TRAIN"
  "assign_loop c i ML_USES = Some VALIDATION \<longleftrightarrow> c TRAIN \<le> i \<and> i < c TRAIN + c VALIDATION"
  "assign_loop c i ML_USES = Some TEST \<longleftrightarrow>
     c TRAIN + c VALIDATION \<le> i \<and> i < c TRAIN + c VALIDATION + c TEST"
  using assms by (auto simp: ML_USES_def counts_nonneg_def)

lemma draws_per_class:
  assumes "counts_nonneg c"
  shows "length (filter (\<lambda>i. assign_loop c i ML_USES = Some TRAIN) [0..counts_sum c - 1]) = nat (c TRAIN)"
    "length (filter (\<lambda>i. assign_loop c i ML_USES = Some VALIDATION) [0..counts_sum c - 1]) = nat (c VALIDATION)"
    "length (filter (\<lambda>i. assign_loop c i ML_USES = Some TEST) [0..counts_sum c - 1]) = nat (c TEST)"
proof -
  have n: "0 \<le> c TRAIN" "0 \<le> c VALIDATION" "0 \<le> c TEST" 
    and s: "counts_sum c = c TRAIN + c VALIDATION + c TEST"
    using assms by (auto simp: counts_nonneg_def counts_sum_def ML_USES_def)
  have "filter (\<lambda>i. assign_loop c i ML_USES = Some TRAIN) [0..counts_sum c - 1]
        = filter (\<lambda>i. 0 \<le> i \<and> i < c TRAIN) [0..counts_sum c - 1]"
    by (rule filter_cong) (auto simp: assign_loop_cases[OF assms])
  then show "length (filter (\<lambda>i. assign_loop c i ML_USES = Some TRAIN) [0..counts_sum c - 1]) = nat (c TRAIN)"
    using length_filter_upto[of 0 "c TRAIN" "counts_sum c"] n s by simp
  show "length (filter (\<lambda>i. assign_loop c i ML_USES = Some VALIDATION) [0..counts_sum c - 1]) = nat (c VALIDATION)"
    using length_filter_upto[of "c TRAIN" "c TRAIN + c VALIDATION" "counts_sum c"] n s
    by (simp add: assign_loop_cases[OF assms])
  show "length (filter (\<lambda>i. assign_loop c i ML_USES = Some TEST) [0..counts_sum c - 1]) = nat (c TEST)"
    using length_filter_upto[of "c TRAIN + c VALIDATION" "c TRAIN + c VALIDATION + c TEST" "counts_sum c"] n s
    by (simp add: assign_loop_cases[OF assms])
qed

text \<open>
  C10. With non-negative remaining counts of positive sum \<open>R\<close>, the draw of \<^verbatim>\<open>_assign_ml_use\<close>
  lies in \<open>[0, R)\<close>, the loop returns inside its body (the fallback after it is not reached)
  with a class of \<^verbatim>\<open>_ML_USES\<close> whose remaining count is positive, never \<open>UNASSIGNED\<close>, and of
  the \<open>R\<close> possible draws exactly \<open>c u\<close> select the class \<open>u\<close>, so a uniform draw weights the
  classes by their remaining counts. One assignment decrements the count of the chosen class
  by 1 and leaves the others, and a run over at most \<open>R\<close> pairs ends with non-negative
  counts, each lowered by the number of pairs its class was fed.
\<close>

theorem assign_ml_use_positive_class:
  assumes "counts_nonneg c" and "0 < counts_sum c" and "randint_ok rand"
    and "int (length ps) \<le> counts_sum c"
  shows "\<exists>u c' fed'.
      0 \<le> rand k 0 (counts_sum c - 1) \<and> rand k 0 (counts_sum c - 1) < counts_sum c
    \<and> assign_loop c (rand k 0 (counts_sum c - 1)) ML_USES = Some u
    \<and> assign_ml_use c (rand k) = Inr u
    \<and> 0 < c u \<and> u \<noteq> UNASSIGNED
    \<and> length (filter (\<lambda>i. assign_loop c i ML_USES = Some TRAIN) [0..counts_sum c - 1]) = nat (c TRAIN)
    \<and> length (filter (\<lambda>i. assign_loop c i ML_USES = Some VALIDATION) [0..counts_sum c - 1]) = nat (c VALIDATION)
    \<and> length (filter (\<lambda>i. assign_loop c i ML_USES = Some TEST) [0..counts_sum c - 1]) = nat (c TEST)
    \<and> autosplit_loop rand k c fed [p] = Inr (c(u := c u - 1), fed(u := fed u @ [p]))
    \<and> counts_nonneg (c(u := c u - 1))
    \<and> autosplit_loop rand k c fed ps = Inr (c', fed')
    \<and> counts_nonneg c'
    \<and> counts_sum c' = counts_sum c - int (length ps)
    \<and> c' TRAIN = c TRAIN - (int (length (fed' TRAIN)) - int (length (fed TRAIN)))
    \<and> c' VALIDATION = c VALIDATION - (int (length (fed' VALIDATION)) - int (length (fed VALIDATION)))
    \<and> c' TEST = c TEST - (int (length (fed' TEST)) - int (length (fed TEST)))"
proof -
  have r: "\<forall>lo hi. lo \<le> hi \<longrightarrow> lo \<le> rand k lo hi \<and> rand k lo hi \<le> hi"
    using assms(3) by (simp add: randint_ok_def)
  from assign_ml_use_ok[OF assms(1,2) r] obtain u where
    u: "assign_ml_use c (rand k) = Inr u"
       "assign_loop c (rand k 0 (counts_sum c - 1)) ML_USES = Some u" "u \<in> set ML_USES" "0 < c u"
    by blast
  from autosplit_loop_run[OF assms(3,1,4), of k fed] obtain c' fed' where
    run: "autosplit_loop rand k c fed ps = Inr (c', fed')" "counts_nonneg c'"
      "counts_sum c' = counts_sum c - int (length ps)"
      "\<forall>u. int (length (fed' u)) + c' u = int (length (fed u)) + c u"
    by blast
  have rng: "0 \<le> rand k 0 (counts_sum c - 1)" "rand k 0 (counts_sum c - 1) < counts_sum c"
    using r[rule_format, of 0 "counts_sum c - 1"] assms(2) by auto
  have one: "autosplit_loop rand k c fed [p] = Inr (c(u := c u - 1), fed(u := fed u @ [p]))"
    using u(1) by (simp add: select_ml_use_def)
  have nn: "counts_nonneg (c(u := c u - 1))"
    using select_nonneg[OF assms(1) u(4)] by (simp add: select_ml_use_def)
  have q: "c' TRAIN = c TRAIN - (int (length (fed' TRAIN)) - int (length (fed TRAIN)))"
    "c' VALIDATION = c VALIDATION - (int (length (fed' VALIDATION)) - int (length (fed VALIDATION)))"
    "c' TEST = c TEST - (int (length (fed' TEST)) - int (length (fed TEST)))"
    using run(4)[rule_format, of TRAIN] run(4)[rule_format, of VALIDATION] run(4)[rule_format, of TEST]
    by linarith+
  have ne: "u \<noteq> UNASSIGNED" using u(3) by (auto simp: ML_USES_def)
  show ?thesis
    using rng u(1,2,4) ne draws_per_class[OF assms(1)] one nn run(1,2,3) q by blast
qed

theorem assign_ml_use_positive_class_witness:
  "counts_nonneg (mk_counts 2 1 1) \<and> 0 < counts_sum (mk_counts 2 1 1)
   \<and> randint_ok (\<lambda>k lo hi. hi)
   \<and> int (length [(''a'', ''b''), (''c'', ''d'')]) \<le> counts_sum (mk_counts 2 1 1)
   \<and> (\<exists>u c' fed'.
      0 \<le> counts_sum (mk_counts 2 1 1) - 1
    \<and> assign_loop (mk_counts 2 1 1) (counts_sum (mk_counts 2 1 1) - 1) ML_USES = Some u
    \<and> assign_ml_use (mk_counts 2 1 1) (\<lambda>lo hi. hi) = Inr u
    \<and> 0 < mk_counts 2 1 1 u \<and> u \<noteq> UNASSIGNED
    \<and> autosplit_loop (\<lambda>k lo hi. hi) 0 (mk_counts 2 1 1) (\<lambda>u. [])
          [(''a'', ''b''), (''c'', ''d'')] = Inr (c', fed')
    \<and> counts_nonneg c'
    \<and> counts_sum c' = counts_sum (mk_counts 2 1 1) - 2)"
proof -
  have h1: "counts_nonneg (mk_counts 2 1 1)" by (simp add: counts_nonneg_def mk_counts_def)
  have h2: "0 < counts_sum (mk_counts 2 1 1)"
    by (simp add: counts_sum_def mk_counts_def ML_USES_def)
  have h3: "randint_ok (\<lambda>k lo hi. hi)" by (simp add: randint_ok_def)
  have h4: "int (length [(''a'', ''b''), (''c'', ''d'')]) \<le> counts_sum (mk_counts 2 1 1)"
    by (simp add: counts_sum_def mk_counts_def ML_USES_def)
  from assign_ml_use_positive_class[OF h1 h2 h3 h4, of 0 "\<lambda>u. []" "(''a'', ''b'')"]
  show ?thesis using h1 h2 h3 h4 by auto
qed

section \<open>Binary64 rounding\<close>

lemma floor_log2_bounds:
  assumes "0 < x"
  shows "2 powi (floor_log2 x) \<le> x \<and> x < 2 powi (floor_log2 x + 1)"
proof -
  obtain p q where pq: "quotient_of x = (p, q)" by (cases "quotient_of x")
  have q: "0 < q" using quotient_of_denom_pos[OF pq] .
  have x: "x = of_int p / of_int q" using quotient_of_div[OF pq] .
  have p: "0 < p" using assms q x by (simp add: zero_less_divide_iff)
  define bp bq where "bp = bitlen p" and "bq = bitlen q"
  have bp1: "1 \<le> bp" and bq1: "1 \<le> bq"
    using p q bitlen_eq_zero_iff[of p] bitlen_eq_zero_iff[of q] bitlen_nonneg[of p] bitlen_nonneg[of q]
    unfolding bp_def bq_def by linarith+
  have "2 ^ nat (bp - 1) \<le> p" "p < 2 ^ nat bp" "2 ^ nat (bq - 1) \<le> q" "q < 2 ^ nat bq"
    using bitlen_bounds[OF p] bitlen_bounds[OF q] unfolding bp_def bq_def by auto
  then have P: "(2::rat) ^ nat (bp - 1) \<le> of_int p" "of_int p < (2::rat) ^ nat bp"
    and Q: "(2::rat) ^ nat (bq - 1) \<le> of_int q" "of_int q < (2::rat) ^ nat bq"
    by (metis of_int_le_iff of_int_less_iff of_int_numeral of_int_power)+
  have e1: "(2::rat) ^ nat (bp - 1) = 2 powi (bp - 1)" "(2::rat) ^ nat bp = 2 powi bp"
    "(2::rat) ^ nat (bq - 1) = 2 powi (bq - 1)" "(2::rat) ^ nat bq = 2 powi bq"
    using bp1 bq1 by (simp_all add: power_int_def)
  have qpos: "(0::rat) < of_int q" using q by simp
  have lo: "2 powi (bp - bq - 1) < x"
  proof -
    have "2 powi (bp - bq - 1) * of_int q < (2::rat) powi (bp - bq - 1) * 2 powi bq"
      using Q(2) e1(4) by (simp add: mult_strict_left_mono)
    also have "\<dots> = 2 powi (bp - 1)" by (simp add: power_int_add[symmetric])
    also have "\<dots> \<le> of_int p" using P(1) e1(1) by simp
    finally show ?thesis using qpos x by (simp add: pos_less_divide_eq)
  qed
  have hi: "x < 2 powi (bp - bq + 1)"
  proof -
    have "of_int p < (2::rat) powi bp" using P(2) e1(2) by simp
    also have "\<dots> = 2 powi (bp - bq + 1) * 2 powi (bq - 1)" by (simp add: power_int_add[symmetric])
    also have "\<dots> \<le> 2 powi (bp - bq + 1) * of_int q"
      using Q(1) e1(3) by (simp add: mult_left_mono)
    finally show ?thesis using qpos x by (simp add: pos_divide_less_eq)
  qed
  show ?thesis
  proof (cases "2 powi (bp - bq) \<le> x")
    case True
    then have "floor_log2 x = bp - bq" by (simp add: floor_log2_def pq bp_def bq_def)
    then show ?thesis using True hi by simp
  next
    case False
    then have "floor_log2 x = bp - bq - 1" by (simp add: floor_log2_def pq bp_def bq_def Let_def)
    then show ?thesis using False lo by simp
  qed
qed

lemma floor_log2_unique:
  assumes "2 powi e \<le> x" "x < 2 powi (e + 1)"
  shows "floor_log2 x = e"
proof -
  have "(0::rat) < 2 powi e" by simp
  then have x: "0 < x" using assms(1) by linarith
  note b = floor_log2_bounds[OF x]
  have "\<not> floor_log2 x < e"
  proof
    assume "floor_log2 x < e"
    then have "(2::rat) powi (floor_log2 x + 1) \<le> 2 powi e"
      by (intro power_int_increasing) auto
    then show False using b assms(1) by linarith
  qed
  moreover have "\<not> e < floor_log2 x"
  proof
    assume "e < floor_log2 x"
    then have "(2::rat) powi (e + 1) \<le> 2 powi (floor_log2 x)"
      by (intro power_int_increasing) auto
    then show False using b assms(2) by linarith
  qed
  ultimately show ?thesis by linarith
qed

lemma round_half_even_error: "\<bar>of_int (round_half_even r) - r\<bar> \<le> 1 / 2"
proof -
  have "of_int \<lfloor>r\<rfloor> \<le> r" "r < of_int \<lfloor>r\<rfloor> + 1" by linarith+
  then show ?thesis unfolding round_half_even_def Let_def
    by (auto simp: abs_le_iff)
qed

lemma round_half_even_snap:
  assumes "0 \<le> d" "d < 1 / 2"
  shows "round_half_even (of_int m + d) = m"
proof -
  have "\<lfloor>of_int m + d\<rfloor> = m" using assms by (intro floor_unique) auto
  then show ?thesis using assms by (simp add: round_half_even_def)
qed

lemma binary64_unfold:
  assumes "2 powi e \<le> \<bar>x\<bar>" "\<bar>x\<bar> < 2 powi (e + 1)" "- 1022 \<le> e"
  shows "binary64 x = of_int (round_half_even (x / 2 powi (e - 52))) * 2 powi (e - 52)"
proof -
  have "floor_log2 \<bar>x\<bar> = e" using floor_log2_unique[OF assms(1,2)] .
  moreover have "x \<noteq> 0"
  proof
    assume "x = 0"
    with assms(1) have "(2::rat) powi e \<le> 0" by simp
    moreover have "(0::rat) < 2 powi e" by simp
    ultimately show False by linarith
  qed
  ultimately show ?thesis using assms(3) by (simp add: binary64_def max_def Let_def)
qed

lemma binary64_error:
  assumes "2 powi (- 1022) \<le> \<bar>x\<bar>"
  shows "\<bar>binary64 x - x\<bar> \<le> \<bar>x\<bar> * 2 powi (- 53)"
proof -
  have "(0::rat) < 2 powi (- 1022)" by simp
  then have x: "0 < \<bar>x\<bar>" using assms by linarith
  define e where "e = floor_log2 \<bar>x\<bar>"
  have b: "2 powi e \<le> \<bar>x\<bar>" "\<bar>x\<bar> < 2 powi (e + 1)"
    using floor_log2_bounds[OF x] by (simp_all add: e_def)
  have e: "- 1022 \<le> e"
  proof (rule ccontr)
    assume "\<not> - 1022 \<le> e"
    then have "(2::rat) powi (e + 1) \<le> 2 powi (- 1022)" by (intro power_int_increasing) auto
    then show False using b(2) assms by linarith
  qed
  define q :: rat where "q = 2 powi (e - 52)"
  have q: "0 < q" by (simp add: q_def)
  have "binary64 x - x = (of_int (round_half_even (x / q)) - x / q) * q"
    using binary64_unfold[OF b e] q by (simp add: q_def algebra_simps)
  then have "\<bar>binary64 x - x\<bar> = \<bar>of_int (round_half_even (x / q)) - x / q\<bar> * q"
    using q by (simp add: abs_mult)
  also have "\<dots> \<le> 1 / 2 * q"
    using round_half_even_error[of "x / q"] q by (intro mult_right_mono) auto
  also have "1 / 2 * q = 2 powi e * 2 powi (- 53)"
    unfolding q_def by (simp add: power_int_diff)
  also have "\<dots> \<le> \<bar>x\<bar> * 2 powi (- 53)"
    using b(1) by (intro mult_right_mono) auto
  finally show ?thesis .
qed

lemma binary64_snap:
  assumes "0 < n" "n < 2 ^ 53" "0 \<le> \<delta>" "\<delta> \<le> of_int n * 2 powi (- 54)"
  shows "binary64 (of_int n + \<delta>) = of_int n"
proof -
  define e where "e = floor_log2 (of_int n)"
  have n0: "(0::rat) < of_int n" using assms(1) by simp
  have b: "2 powi e \<le> (of_int n :: rat)" "(of_int n :: rat) < 2 powi (e + 1)"
    using floor_log2_bounds[OF n0] by (simp_all add: e_def)
  have e0: "0 \<le> e"
  proof (rule ccontr)
    assume "\<not> 0 \<le> e"
    then have "(2::rat) powi (e + 1) \<le> 2 powi 0" by (intro power_int_increasing) auto
    then have "(of_int n :: rat) < 1" using b(2) by simp
    then show False using assms(1) by simp
  qed
  have e52: "e \<le> 52"
  proof (rule ccontr)
    assume "\<not> e \<le> 52"
    then have "(2::rat) powi 53 \<le> 2 powi e" by (intro power_int_increasing) auto
    then have "(2::rat) ^ 53 \<le> of_int n" using b(1) by simp
    moreover have "(2::rat) ^ 53 = of_int (2 ^ 53)" by simp
    ultimately have "(of_int (2 ^ 53) :: rat) \<le> of_int n" by (simp only:)
    then have "(2::int) ^ 53 \<le> n" by (simp only: of_int_le_iff)
    then show False using assms(2) by simp
  qed
  have pe: "(2::rat) powi (e + 1) = of_int (2 ^ nat (e + 1))"
    using e0 by (simp add: power_int_def)
  have nle: "n + 1 \<le> 2 ^ nat (e + 1)"
    using b(2) unfolding pe by simp
  then have nle': "(of_int n :: rat) + 1 \<le> 2 powi (e + 1)"
    unfolding pe by (metis of_int_1 of_int_add of_int_le_iff)
  have dlt: "\<delta> < 2 powi (e - 53)"
  proof -
    have "(of_int n :: rat) * 2 powi (- 54) < 2 powi (e + 1) * 2 powi (- 54)"
      using b(2) by (intro mult_strict_right_mono) simp_all
    then have "\<delta> < 2 powi (e + 1) * 2 powi (- 54)"
      using assms(4) by linarith
    also have "\<dots> = 2 powi (e - 53)" by (simp add: power_int_add power_int_diff)
    finally show ?thesis .
  qed
  have "(2::rat) powi (e - 53) \<le> 2 powi 0" using e52 by (intro power_int_increasing) auto
  then have d1: "\<delta> < 1" using dlt by simp
  let ?x = "of_int n + \<delta>"
  have x1: "2 powi e \<le> \<bar>?x\<bar>" using b(1) assms(3) by simp
  have x2: "\<bar>?x\<bar> < 2 powi (e + 1)" using nle' d1 assms(3) n0 by simp
  have e3: "- 1022 \<le> e" using e0 by simp
  define q :: rat where "q = 2 powi (e - 52)"
  have q: "0 < q" by (simp add: q_def)
  have qinv: "1 / q = of_int (2 ^ nat (52 - e))"
    using e52 by (simp add: q_def power_int_def power_int_diff field_simps)
  have "1 / q = 2 powi (52 - e)" unfolding q_def by (simp add: power_int_diff field_simps)
  define m where "m = n * 2 ^ nat (52 - e)"
  have xm: "?x / q = of_int m + \<delta> / q"
    using qinv by (simp add: m_def add_divide_distrib divide_inverse algebra_simps)
  have dq0: "0 \<le> \<delta> / q" using assms(3) q by simp
  have "\<delta> / q < 2 powi (e - 53) / q" using dlt q by (simp add: divide_strict_right_mono)
  also have "2 powi (e - 53) / q = 1 / 2" unfolding q_def by (simp add: power_int_diff)
  finally have dq1: "\<delta> / q < 1 / 2" .
  have "round_half_even (?x / q) = m" unfolding xm using round_half_even_snap[OF dq0 dq1] .
  then have "binary64 ?x = of_int m * q"
    using binary64_unfold[OF x1 x2 e3] by (simp add: q_def)
  also have "\<dots> = of_int n * (of_int (2 ^ nat (52 - e)) * q)" by (simp add: m_def)
  also have "of_int (2 ^ nat (52 - e)) * q = 1"
  proof -
    have "of_int (2 ^ nat (52 - e)) * q = 1 / q * q" by (simp only: qinv)
    also have "\<dots> = 1" using q by simp
    finally show ?thesis .
  qed
  finally show ?thesis by simp
qed

lemma binary64_int:
  assumes "0 \<le> n" "n < 2 ^ 53"
  shows "binary64 (of_int n) = of_int n"
proof (cases "n = 0")
  case True then show ?thesis by (simp add: binary64_def)
next
  case False
  then have "0 < n" using assms(1) by simp
  from binary64_snap[OF this assms(2), of 0] show ?thesis using assms(1) by simp
qed

lemma round_half_even_eval:
  assumes "of_int f \<le> r" "r < of_int f + 1"
  shows "round_half_even r =
    (if r - of_int f < 1 / 2 then f else if 1 / 2 < r - of_int f then f + 1
     else if even f then f else f + 1)"
proof -
  have "\<lfloor>r\<rfloor> = f" using assms by (intro floor_unique) auto
  then show ?thesis by (simp add: round_half_even_def)
qed

lemma float_0_8_eq: "float_0_8 = 3602879701896397 / 4503599627370496"
proof -
  have "binary64 (4 / 5) = of_int (round_half_even ((4 / 5) / 2 powi (- 1 - 52))) * 2 powi (- 1 - 52)"
    by (rule binary64_unfold) simp_all
  also have "(4 / 5 :: rat) / 2 powi (- 1 - 52) = 36028797018963968 / 5" by simp
  also have "round_half_even (36028797018963968 / 5) = 7205759403792794"
    by (subst round_half_even_eval[of 7205759403792793]) simp_all
  finally show ?thesis by (simp add: float_0_8_def)
qed

lemma float_0_9_eq: "float_0_9 = 8106479329266893 / 9007199254740992"
proof -
  have "binary64 (9 / 10) = of_int (round_half_even ((9 / 10) / 2 powi (- 1 - 52))) * 2 powi (- 1 - 52)"
    by (rule binary64_unfold) simp_all
  also have "(9 / 10 :: rat) / 2 powi (- 1 - 52) = 81064793292668928 / 10" by simp
  also have "round_half_even (81064793292668928 / 10) = 8106479329266893"
    by (subst round_half_even_eval[of 8106479329266892]) simp_all
  finally show ?thesis by (simp add: float_0_9_def)
qed

lemma ceiling_near:
  assumes "0 < m" "\<not> m dvd p" "\<bar>a - of_int p / of_int m\<bar> < 1 / of_int m"
  shows "\<lceil>a :: rat\<rceil> = \<lceil>of_int p / of_int m :: rat\<rceil>"
proof -
  define z where "z = p div m + 1"
  have pm: "p = m * (p div m) + p mod m" by simp
  have r1: "1 \<le> p mod m" using assms(1,2) 
    by (metis dvd_eq_mod_eq_0 int_one_le_iff_zero_less le_less pos_mod_sign)
  have r2: "p mod m \<le> m - 1" using assms(1) pos_mod_bound[of m p] by simp
  have m: "(0::rat) < of_int m" using assms(1) by simp
  have "(of_int p :: rat) = of_int m * of_int (p div m) + of_int (p mod m)"
    by (metis pm of_int_add of_int_mult)
  then have frac: "(of_int p / of_int m :: rat) = of_int (p div m) + of_int (p mod m) / of_int m"
    using m by (simp add: field_simps)
  have f1: "(1 / of_int m :: rat) \<le> of_int (p mod m) / of_int m"
    using r1 m by (simp add: divide_right_mono)
  have "(of_int (p mod m) :: rat) \<le> of_int m - 1" using r2 by (metis of_int_1 of_int_diff of_int_le_iff)
  then have "(of_int (p mod m) / of_int m :: rat) \<le> (of_int m - 1) / of_int m"
    using m by (simp add: divide_right_mono)
  also have "\<dots> = 1 - 1 / of_int m" using m by (simp add: field_simps)
  finally have f2: "(of_int (p mod m) / of_int m :: rat) \<le> 1 - 1 / of_int m" .
  have zz: "(of_int z :: rat) = of_int (p div m) + 1" by (simp add: z_def)
  have u: "(0::rat) < 1 / of_int m" using m by simp
  have a: "a - of_int p / of_int m < 1 / of_int m" "- (1 / of_int m) < a - of_int p / of_int m"
    using assms(3) by (simp_all add: abs_less_iff)
  have "of_int z - 1 < (of_int p / of_int m :: rat)" "(of_int p / of_int m :: rat) \<le> of_int z"
    using frac f1 f2 u zz by linarith+
  then have "\<lceil>of_int p / of_int m :: rat\<rceil> = z" by (rule ceiling_unique)
  moreover have "of_int z - 1 < a" "a \<le> of_int z"
    using frac f1 f2 u zz a by linarith+
  then have "\<lceil>a\<rceil> = z" by (rule ceiling_unique)
  ultimately show ?thesis by simp
qed

lemma mul_0_8_small:
  assumes "0 \<le> N" "N \<le> 2 ^ 49"
  shows "\<bar>binary64 (of_int N * float_0_8) - of_int (4 * N) / 5\<bar> < 1 / 5"
    and "5 dvd N \<Longrightarrow> binary64 (of_int N * float_0_8) = of_int (4 * N) / 5"
proof -
  let ?x = "of_int N * float_0_8"
  have N0: "(0::rat) \<le> of_int N" using assms(1) by simp
  have "(of_int N :: rat) \<le> of_int (2 ^ 49)" using assms(2) by (simp only: of_int_le_iff)
  then have N1: "(of_int N :: rat) \<le> 562949953421312" by simp
  have exact: "binary64 ?x = of_int (4 * N) / 5" if d: "5 dvd N"
  proof (cases "N = 0")
    case True then show ?thesis by (simp add: binary64_def)
  next
    case False
    from d obtain k where k: "N = 5 * k" by (auto simp: dvd_def)
    have kpos: "0 < k" using False assms(1) k by simp
    have x: "of_int N * float_0_8 = of_int (4 * k) + of_int k / 4503599627370496"
      by (simp add: k float_0_8_eq)
    have y: "(of_int (4 * N) / 5 :: rat) = of_int (4 * k)" by (simp add: k)
    have "binary64 (of_int (4 * k) + of_int k / 4503599627370496) = of_int (4 * k)"
    proof (rule binary64_snap)
      show "0 < 4 * k" using kpos by simp
      show "4 * k < 2 ^ 53" using assms(2) k by simp
      show "(0::rat) \<le> of_int k / 4503599627370496" using kpos by simp
      show "(of_int k / 4503599627370496 :: rat) \<le> of_int (4 * k) * 2 powi (- 54)" by simp
    qed
    then show ?thesis by (simp only: x y)
  qed
  show "5 dvd N \<Longrightarrow> binary64 ?x = of_int (4 * N) / 5" by (rule exact)
  show "\<bar>binary64 ?x - of_int (4 * N) / 5\<bar> < 1 / 5"
  proof (cases "5 dvd N")
    case True then show ?thesis using exact by simp
  next
    case False
    then have "N \<noteq> 0" by auto
    then have "1 \<le> N" using assms(1) by simp
    then have N2: "(1::rat) \<le> of_int N" by simp
    have x: "?x = of_int N * (3602879701896397 / 4503599627370496)" by (simp add: float_0_8_eq)
    have xpos: "\<bar>?x\<bar> = ?x" using N0 by (simp add: x)
    have "(2::rat) powi (- 1022) \<le> 1 / 2" by (simp add: power_int_minus field_simps)
    also have "\<dots> \<le> ?x" using N2 by (simp add: x)
    finally have "2 powi (- 1022) \<le> \<bar>?x\<bar>" using xpos by simp
    from binary64_error[OF this] have e: "\<bar>binary64 ?x - ?x\<bar> \<le> ?x / 9007199254740992"
      using xpos by simp
    have lin: "\<bar>a - y\<bar> \<le> y / 9007199254740992 \<Longrightarrow>
        y = n * (3602879701896397 / 4503599627370496) \<Longrightarrow> 0 \<le> n \<Longrightarrow>
        n \<le> 562949953421312 \<Longrightarrow> \<bar>a - 4 * n / 5\<bar> < 1 / 5" for a y n :: rat
      by linarith
    from lin[OF e x N0 N1] show ?thesis by simp
  qed
qed

lemma mul_0_9_small:
  assumes "0 \<le> N" "N \<le> 2 ^ 49"
  shows "\<bar>binary64 (of_int N * float_0_9) - of_int (9 * N) / 10\<bar> \<le> 3 / 40"
    and "10 dvd N \<Longrightarrow> binary64 (of_int N * float_0_9) = of_int (9 * N) / 10"
proof -
  let ?x = "of_int N * float_0_9"
  have N0: "(0::rat) \<le> of_int N" using assms(1) by simp
  have "(of_int N :: rat) \<le> of_int (2 ^ 49)" using assms(2) by (simp only: of_int_le_iff)
  then have N1: "(of_int N :: rat) \<le> 562949953421312" by simp
  have exact: "binary64 ?x = of_int (9 * N) / 10" if d: "10 dvd N"
  proof (cases "N = 0")
    case True then show ?thesis by (simp add: binary64_def)
  next
    case False
    from d obtain k where k: "N = 10 * k" by (auto simp: dvd_def)
    have kpos: "0 < k" using False assms(1) k by simp
    have x: "of_int N * float_0_9 = of_int (9 * k) + of_int k / 4503599627370496"
      by (simp add: k float_0_9_eq)
    have y: "(of_int (9 * N) / 10 :: rat) = of_int (9 * k)" by (simp add: k)
    have "binary64 (of_int (9 * k) + of_int k / 4503599627370496) = of_int (9 * k)"
    proof (rule binary64_snap)
      show "0 < 9 * k" using kpos by simp
      show "9 * k < 2 ^ 53" using assms(2) k by simp
      show "(0::rat) \<le> of_int k / 4503599627370496" using kpos by simp
      show "(of_int k / 4503599627370496 :: rat) \<le> of_int (9 * k) * 2 powi (- 54)"
        using kpos by simp
    qed
    then show ?thesis by (simp only: x y)
  qed
  show "10 dvd N \<Longrightarrow> binary64 ?x = of_int (9 * N) / 10" by (rule exact)
  show "\<bar>binary64 ?x - of_int (9 * N) / 10\<bar> \<le> 3 / 40"
  proof (cases "10 dvd N")
    case True then show ?thesis using exact by simp
  next
    case False
    then have "N \<noteq> 0" by auto
    then have "1 \<le> N" using assms(1) by simp
    then have N2: "(1::rat) \<le> of_int N" by simp
    have x: "?x = of_int N * (8106479329266893 / 9007199254740992)" by (simp add: float_0_9_eq)
    have xpos: "\<bar>?x\<bar> = ?x" using N0 by (simp add: x)
    have "(2::rat) powi (- 1022) \<le> 1 / 2" by (simp add: power_int_minus field_simps)
    also have "\<dots> \<le> ?x" using N2 by (simp add: x)
    finally have "2 powi (- 1022) \<le> \<bar>?x\<bar>" using xpos by simp
    from binary64_error[OF this] have e: "\<bar>binary64 ?x - ?x\<bar> \<le> ?x / 9007199254740992"
      using xpos by simp
    have lin: "\<bar>a - y\<bar> \<le> y / 9007199254740992 \<Longrightarrow>
        y = n * (8106479329266893 / 9007199254740992) \<Longrightarrow> 0 \<le> n \<Longrightarrow>
        n \<le> 562949953421312 \<Longrightarrow> \<bar>a - 9 * n / 10\<bar> \<le> 3 / 40" for a y n :: rat
      by linarith
    from lin[OF e x N0 N1] show ?thesis by simp
  qed
qed

lemma fl_Inr: "\<bar>binary64 x\<bar> < 2 ^ 1024 \<Longrightarrow> fl x = Inr (binary64 x)"
  by (simp add: fl_def Let_def)

lemma small_lt_big: "\<bar>y\<bar> \<le> 9007199254740992 \<Longrightarrow> \<bar>y :: rat\<bar> < 2 ^ 1024"
proof -
  assume a: "\<bar>y\<bar> \<le> 9007199254740992"
  have "(2::rat) ^ 53 < 2 ^ 1024" by (rule power_strict_increasing) simp_all
  moreover have "(9007199254740992::rat) = 2 ^ 53" by simp
  ultimately show ?thesis using a by (simp only:)
qed

lemma fl_int: "0 \<le> n \<Longrightarrow> n < 2 ^ 53 \<Longrightarrow> fl (of_int n) = Inr (of_int n)"
proof -
  assume a: "0 \<le> n" "n < 2 ^ 53"
  have "(of_int n :: rat) < of_int (2 ^ 53)" using a(2) by (simp only: of_int_less_iff)
  then have "\<bar>of_int n :: rat\<bar> \<le> 9007199254740992" using a(1) by simp
  then have "\<bar>of_int n :: rat\<bar> < 2 ^ 1024" by (rule small_lt_big)
  then show ?thesis using binary64_int[OF a] by (simp add: fl_def Let_def)
qed

lemma ceiling_4_5: "\<lceil>of_int (4 * N) / 5 :: rat\<rceil> = (4 * N + 4) div 5"
proof (rule ceiling_unique)
  have "5 * ((4 * N + 4) div 5) \<le> 4 * N + 4" "4 * N < 5 * ((4 * N + 4) div 5) + 1" by presburger+
  then have "(of_int (5 * ((4 * N + 4) div 5)) :: rat) \<le> of_int (4 * N + 4)"
    "(of_int (4 * N) :: rat) < of_int (5 * ((4 * N + 4) div 5) + 1)"
    by (simp_all only: of_int_le_iff of_int_less_iff)
  then show "(of_int ((4 * N + 4) div 5) :: rat) - 1 < of_int (4 * N) / 5"
    "(of_int (4 * N) / 5 :: rat) \<le> of_int ((4 * N + 4) div 5)"
    by simp_all
qed

lemma autosplit_example_count_small:
  assumes "0 \<le> N" "N \<le> 2 ^ 49"
  shows "\<exists>train validation test.
           autosplit_example_count N = Inr (mk_counts train validation test)
         \<and> train = \<lceil>of_int N * (8 / 10 :: rat)\<rceil>
         \<and> validation = \<lceil>of_int N * (9 / 10 :: rat) - of_int train\<rceil>
         \<and> test = N - train - validation
         \<and> train + validation + test = N"
proof -
  define a where "a = binary64 (of_int N * float_0_8)"
  define b where "b = binary64 (of_int N * float_0_9)"
  define tr where "tr = \<lceil>a\<rceil>"
  define d where "d = binary64 (b - of_int tr)"
  have N0: "(0::rat) \<le> of_int N" using assms(1) by simp
  have "(of_int N :: rat) \<le> of_int (2 ^ 49)" using assms(2) by (simp only: of_int_le_iff)
  then have N1: "(of_int N :: rat) \<le> 562949953421312" by simp
  have N53: "N < 2 ^ 53" using assms(2) by simp
  have ea: "\<bar>a - of_int (4 * N) / 5\<bar> < 1 / 5"
    and xa: "5 dvd N \<Longrightarrow> a = of_int (4 * N) / 5"
    using mul_0_8_small[OF assms] by (simp_all add: a_def)
  have eb: "\<bar>b - of_int (9 * N) / 10\<bar> \<le> 3 / 40"
    and xb: "10 dvd N \<Longrightarrow> b = of_int (9 * N) / 10"
    using mul_0_9_small[OF assms] by (simp_all add: b_def)
  have tr: "tr = \<lceil>of_int (4 * N) / 5 :: rat\<rceil>"
  proof (cases "5 dvd N")
    case True
    from xa[OF True] show ?thesis by (simp only: tr_def)
  next
    case False
    have "\<not> 5 dvd 4 * N" using False by presburger
    moreover have "\<bar>a - of_int (4 * N) / of_int 5\<bar> < 1 / of_int 5" using ea by simp
    ultimately have "\<lceil>a\<rceil> = \<lceil>of_int (4 * N) / of_int 5 :: rat\<rceil>"
      by (intro ceiling_near) simp_all
    then show ?thesis by (simp add: tr_def)
  qed
  have tr': "tr = (4 * N + 4) div 5" using tr ceiling_4_5 by simp
  have tr0: "0 \<le> tr" "tr \<le> N" using assms(1) unfolding tr' by presburger+
  have tr53: "tr < 2 ^ 53" using tr0 N53 by linarith
  have trlo: "(of_int (4 * N) / 5 :: rat) \<le> of_int tr" 
    and trhi: "(of_int tr :: rat) < of_int (4 * N) / 5 + 1"
    unfolding tr by linarith+
  define r :: rat where "r = of_int (9 * N - 10 * tr) / of_int 10"
  have r: "r = of_int N * (9 / 10) - of_int tr" by (simp add: r_def field_simps)
  have dv: "\<lceil>d\<rceil> = \<lceil>r\<rceil>" and dfin: "\<bar>d\<bar> < 2 ^ 1024"
  proof -
    have "\<lceil>d\<rceil> = \<lceil>r\<rceil> \<and> \<bar>d\<bar> < 2 ^ 1024"
    proof (cases "10 dvd N")
      case True
      then obtain k where k: "N = 10 * k" by (auto simp: dvd_def)
      have k0: "0 \<le> k" "k < 2 ^ 53" using assms k by simp_all
      have "tr = 8 * k" unfolding tr' k by presburger
      then have "b - of_int tr = of_int k" "r = of_int k" using xb[OF True] by (simp_all add: k r)
      then have "d = of_int k" "r = of_int k" using binary64_int[OF k0] by (simp_all add: d_def)
      moreover have "(of_int k :: rat) < of_int (2 ^ 53)" using k0(2) by (simp only: of_int_less_iff)
      then have "\<bar>of_int k :: rat\<bar> \<le> 9007199254740992" using k0(1) by simp
      then have "\<bar>of_int k :: rat\<bar> < 2 ^ 1024" by (rule small_lt_big)
      ultimately show ?thesis by simp
    next
      case False
      then have nd: "\<not> 10 dvd (9 * N - 10 * tr)" by presburger
      then have "9 * N - 10 * tr \<noteq> 0" by auto
      then have "1 \<le> \<bar>9 * N - 10 * tr\<bar>" by linarith
      then have "(of_int 1 :: rat) \<le> of_int \<bar>9 * N - 10 * tr\<bar>" by (simp only: of_int_le_iff)
      then have rlo: "1 / 10 \<le> \<bar>r\<bar>" by (simp add: r_def)
      let ?z = "b - of_int tr"
      have zr: "\<bar>?z - r\<bar> \<le> 3 / 40" using eb by (simp add: r field_simps)
      have "(2::rat) powi (- 1022) \<le> 1 / 40" by (simp add: power_int_minus field_simps)
      also have "\<dots> \<le> \<bar>?z\<bar>" using rlo zr by linarith
      finally have "\<bar>binary64 ?z - ?z\<bar> \<le> \<bar>?z\<bar> * 2 powi (- 53)" by (rule binary64_error)
      then have ed: "\<bar>d - ?z\<bar> \<le> \<bar>?z\<bar> / 9007199254740992" by (simp add: d_def)
      have rb: "\<bar>r\<bar> \<le> of_int N / 10 + 1" using trlo trhi N0 unfolding r by (simp add: abs_le_iff) 
      have lin: "\<bar>d' - z\<bar> \<le> \<bar>z\<bar> / 9007199254740992 \<Longrightarrow> \<bar>z - r'\<bar> \<le> 3 / 40 \<Longrightarrow>
          \<bar>r'\<bar> \<le> n / 10 + 1 \<Longrightarrow> n \<le> 562949953421312 \<Longrightarrow> 0 \<le> n \<Longrightarrow>
          \<bar>d' - r'\<bar> < 1 / 10 \<and> \<bar>d'\<bar> \<le> n + 2" for d' z r' n :: rat
        by linarith
      from lin[OF ed zr rb N1 N0] have dr: "\<bar>d - r\<bar> < 1 / 10" and db: "\<bar>d\<bar> \<le> of_int N + 2" by simp_all
      have "\<bar>d - of_int (9 * N - 10 * tr) / of_int 10\<bar> < 1 / of_int 10" using dr by (simp add: r_def)
      then have "\<lceil>d\<rceil> = \<lceil>of_int (9 * N - 10 * tr) / of_int 10 :: rat\<rceil>"
        using nd by (intro ceiling_near) simp_all
      moreover have "\<bar>d\<bar> \<le> 9007199254740992" using db N1 by linarith
      then have "\<bar>d\<bar> < 2 ^ 1024" by (rule small_lt_big)
      ultimately show ?thesis by (simp add: r_def)
    qed
    then show "\<lceil>d\<rceil> = \<lceil>r\<rceil>" "\<bar>d\<bar> < 2 ^ 1024" by simp_all
  qed
  have "\<bar>a' - 4 * n / 5\<bar> < 1 / 5 \<Longrightarrow> 0 \<le> n \<Longrightarrow> n \<le> 562949953421312 \<Longrightarrow>
      \<bar>a'\<bar> \<le> 9007199254740992" for a' n :: rat by linarith
  from this[of a "of_int N"] have "\<bar>a\<bar> \<le> 9007199254740992" using ea N0 N1 by simp
  then have afin: "\<bar>a\<bar> < 2 ^ 1024" by (rule small_lt_big)
  have "\<bar>b' - 9 * n / 10\<bar> \<le> 3 / 40 \<Longrightarrow> 0 \<le> n \<Longrightarrow> n \<le> 562949953421312 \<Longrightarrow>
      \<bar>b'\<bar> \<le> 9007199254740992" for b' n :: rat by linarith
  from this[of b "of_int N"] have "\<bar>b\<bar> \<le> 9007199254740992" using eb N0 N1 by simp
  then have bfin: "\<bar>b\<bar> < 2 ^ 1024" by (rule small_lt_big)
  have s1: "fl (of_int N) = Inr (of_int N)" using fl_int[OF assms(1) N53] .
  have s2: "fl (of_int N * float_0_8) = Inr a" using fl_Inr afin by (simp add: a_def)
  have s3: "fl (of_int N * float_0_9) = Inr b" using fl_Inr bfin by (simp add: b_def)
  have s4: "fl (of_int tr) = Inr (of_int tr)" using fl_int[OF tr0(1) tr53] .
  have s5: "fl (b - of_int tr) = Inr d" using fl_Inr dfin by (simp add: d_def)
  have "autosplit_example_count N = Inr (mk_counts tr \<lceil>d\<rceil> (N - \<lceil>d\<rceil> - tr))"
    unfolding autosplit_example_count_def
    by (simp add: err_bind_def s1 s2 s3 tr_def[symmetric] s4 s5 Let_def)
  moreover have "tr = \<lceil>of_int N * (8 / 10 :: rat)\<rceil>" using tr by (simp add: field_simps)
  moreover have "\<lceil>d\<rceil> = \<lceil>of_int N * (9 / 10 :: rat) - of_int tr\<rceil>" using dv r by simp
  ultimately show ?thesis by simp
qed

lemma binary64_error_pos:
  assumes "1 / 2 \<le> y"
  shows "y - y / 9007199254740992 \<le> binary64 y" "binary64 y \<le> y + y / 9007199254740992"
proof -
  have "(2::rat) powi (- 1022) \<le> 1 / 2" by (simp add: power_int_minus field_simps)
  then have "2 powi (- 1022) \<le> \<bar>y\<bar>" using assms by linarith
  from binary64_error[OF this] have "\<bar>binary64 y - y\<bar> \<le> y / 9007199254740992"
    using assms by simp
  then show "y - y / 9007199254740992 \<le> binary64 y" "binary64 y \<le> y + y / 9007199254740992"
    by linarith+
qed

lemma fl_InrD: "fl y = Inr v \<Longrightarrow> v = binary64 y"
  by (auto simp: fl_def Let_def split: if_splits)

lemma autosplit_example_count_InrD:
  assumes "autosplit_example_count N = Inr c"
  shows "c = mk_counts 
      \<lceil>binary64 (binary64 (of_int N) * float_0_8)\<rceil>
      \<lceil>binary64 (binary64 (binary64 (of_int N) * float_0_9)
           - binary64 (of_int \<lceil>binary64 (binary64 (of_int N) * float_0_8)\<rceil>))\<rceil>
      (N - \<lceil>binary64 (binary64 (binary64 (of_int N) * float_0_9)
           - binary64 (of_int \<lceil>binary64 (binary64 (of_int N) * float_0_8)\<rceil>))\<rceil>
         - \<lceil>binary64 (binary64 (of_int N) * float_0_8)\<rceil>)"
  using assms unfolding autosplit_example_count_def err_bind_def Let_def
  by (auto split: sum.splits dest!: fl_InrD)

lemma counts_sum_mk: "counts_sum (mk_counts tr va (N - va - tr)) = N"
  by (simp add: counts_sum_def mk_counts_def ML_USES_def)

lemma autosplit_example_count_large:
  assumes "2 ^ 49 \<le> N" "autosplit_example_count N = Inr c"
  shows "counts_nonneg c"
proof -
  define n :: rat where "n = of_int N"
  define x where "x = binary64 n"
  define a where "a = binary64 (x * float_0_8)"
  define tr where "tr = \<lceil>a\<rceil>"
  define t where "t = binary64 (of_int tr)"
  define b where "b = binary64 (x * float_0_9)"
  define d where "d = binary64 (b - t)"
  define va where "va = \<lceil>d\<rceil>"
  have c: "c = mk_counts tr va (N - va - tr)"
    using autosplit_example_count_InrD[OF assms(2)]
    by (simp add: va_def d_def b_def t_def tr_def a_def x_def n_def)
  have "(of_int (2 ^ 49) :: rat) \<le> of_int N" using assms(1) by (simp only: of_int_le_iff)
  then have n: "562949953421312 \<le> n" by (simp add: n_def)
  have x: "n - n / 9007199254740992 \<le> x" "x \<le> n + n / 9007199254740992"
    unfolding x_def using n by (intro binary64_error_pos; linarith)+
  have y8: "x * float_0_8 = x * (3602879701896397 / 4503599627370496)" by (simp add: float_0_8_eq)
  have y9: "x * float_0_9 = x * (8106479329266893 / 9007199254740992)" by (simp add: float_0_9_eq)
  have xw: "999 / 1000 * n \<le> x" "x \<le> 1001 / 1000 * n" using x n by linarith+
  have x1: "1 \<le> x" using xw(1) n by linarith
  have a: "x * (3602879701896397 / 4503599627370496) - x * (3602879701896397 / 4503599627370496) / 9007199254740992 \<le> a"
      "a \<le> x * (3602879701896397 / 4503599627370496) + x * (3602879701896397 / 4503599627370496) / 9007199254740992"
    unfolding a_def y8 using x1 by (intro binary64_error_pos; linarith)+
  have aw: "799 / 1000 * x \<le> a" "a \<le> 801 / 1000 * x" using a x1 by linarith+
  have b: "x * (8106479329266893 / 9007199254740992) - x * (8106479329266893 / 9007199254740992) / 9007199254740992 \<le> b"
      "b \<le> x * (8106479329266893 / 9007199254740992) + x * (8106479329266893 / 9007199254740992) / 9007199254740992"
    unfolding b_def y9 using x1 by (intro binary64_error_pos; linarith)+
  have bw: "899 / 1000 * x \<le> b" "b \<le> 901 / 1000 * x" using b x1 by linarith+
  define trr :: rat where "trr = of_int tr"
  have trr: "a \<le> trr" "trr < a + 1" unfolding trr_def tr_def by linarith+
  have trr1: "1 \<le> trr" using trr(1) aw(1) x1 xw(1) n by linarith
  have t: "trr - trr / 9007199254740992 \<le> t" "t \<le> trr + trr / 9007199254740992"
    unfolding t_def trr_def[symmetric] using trr1 by (intro binary64_error_pos; linarith)+
  have tw: "999 / 1000 * trr \<le> t" "t \<le> 1001 / 1000 * trr" using t trr1 by linarith+
  define z where "z = b - t"
  have zlo: "97 / 1000 * x - 2 \<le> z" unfolding z_def using bw(1) tw(2) trr(2) aw(2) x1 by linarith
  have zhi: "z \<le> 103 / 1000 * x" unfolding z_def using bw(2) tw(1) trr(1) aw(1) x1 by linarith
  have z1: "1 \<le> z" using zlo xw(1) n by linarith
  have d: "z - z / 9007199254740992 \<le> d" "d \<le> z + z / 9007199254740992"
    unfolding d_def z_def[symmetric] using z1 by (intro binary64_error_pos; linarith)+
  have dw: "999 / 1000 * z \<le> d" "d \<le> 1001 / 1000 * z" using d z1 by linarith+
  define var :: rat where "var = of_int va"
  have var: "d \<le> var" "var < d + 1" unfolding var_def va_def by linarith+
  have "0 < d" using dw(1) z1 by linarith
  then have "0 < var" using var(1) by linarith
  then have va0: "0 \<le> va" by (simp add: var_def)
  have "0 < trr" using trr1 by linarith
  then have tr0: "0 \<le> tr" by (simp add: trr_def)
  have "var \<le> 104 / 1000 * x + 1" using var(2) dw(2) zhi x1 by linarith
  then have "var + trr \<le> 905 / 1000 * x + 2" using trr(2) aw(2) by linarith
  then have "var + trr \<le> n" using xw(2) n by linarith
  then have "of_int (va + tr) \<le> (of_int N :: rat)" by (simp add: var_def trr_def n_def)
  then have "va + tr \<le> N" by (simp only: of_int_le_iff)
  then show ?thesis using va0 tr0 by (simp add: c counts_nonneg_def mk_counts_def)
qed

lemma autosplit_example_count_sound:
  assumes "0 \<le> N" "autosplit_example_count N = Inr c"
  shows "counts_nonneg c \<and> counts_sum c = N"
proof -
  have s: "counts_sum c = N"
    by (subst autosplit_example_count_InrD[OF assms(2)]) (rule counts_sum_mk)
  have "counts_nonneg c"
  proof (cases "N \<le> 2 ^ 49")
    case True
    from autosplit_example_count_small[OF assms(1) True] obtain tr va te where
      h: "autosplit_example_count N = Inr (mk_counts tr va te)"
        "tr = \<lceil>of_int N * (8 / 10 :: rat)\<rceil>"
        "va = \<lceil>of_int N * (9 / 10 :: rat) - of_int tr\<rceil>" "te = N - tr - va" by blast
    have e8: "of_int N * (8 / 10 :: rat) = of_int (4 * N) / 5" by simp
    have tr: "tr = (4 * N + 4) div 5" unfolding h(2) e8 by (rule ceiling_4_5)
    have e9: "of_int N * (9 / 10 :: rat) = of_int (9 * N) / 10" by simp
    have "va = \<lceil>of_int (9 * N) / 10 :: rat\<rceil> - tr" unfolding h(3) e9 by (rule ceiling_diff_of_int)
    moreover have "\<lceil>of_int (9 * N) / 10 :: rat\<rceil> = (9 * N + 9) div 10"
    proof (rule ceiling_unique)
      have "10 * ((9 * N + 9) div 10) \<le> 9 * N + 9" "9 * N < 10 * ((9 * N + 9) div 10) + 1" by presburger+
      then have "(of_int (10 * ((9 * N + 9) div 10)) :: rat) \<le> of_int (9 * N + 9)"
        "(of_int (9 * N) :: rat) < of_int (10 * ((9 * N + 9) div 10) + 1)"
        by (simp_all only: of_int_le_iff of_int_less_iff)
      then show "(of_int ((9 * N + 9) div 10) :: rat) - 1 < of_int (9 * N) / 10"
        "(of_int (9 * N) / 10 :: rat) \<le> of_int ((9 * N + 9) div 10)"
        by simp_all
    qed
    ultimately have va: "va = (9 * N + 9) div 10 - (4 * N + 4) div 5" using tr by simp
    define q5 where "q5 = (4 * N + 4) div 5"
    define q10 where "q10 = (9 * N + 9) div 10"
    have b5: "5 * q5 \<le> 4 * N + 4" "4 * N + 4 < 5 * q5 + 5"
      unfolding q5_def
      by (use div_mult_mod_eq[of "4 * N + 4" 5] pos_mod_bound[of 5 "4 * N + 4"] pos_mod_sign[of 5 "4 * N + 4"] in linarith)+
    have b10: "10 * q10 \<le> 9 * N + 9" "9 * N + 9 < 10 * q10 + 10"
      unfolding q10_def
      by (use div_mult_mod_eq[of "9 * N + 9" 10] pos_mod_bound[of 10 "9 * N + 9"] pos_mod_sign[of 10 "9 * N + 9"] in linarith)+
    have "0 \<le> tr" "0 \<le> va" "0 \<le> N - tr - va"
      using assms(1) b5 b10 unfolding tr va q5_def[symmetric] q10_def[symmetric] by linarith+
    then have "counts_nonneg (mk_counts tr va te)" by (simp add: counts_nonneg_def mk_counts_def h(4))
    then show ?thesis using h(1) assms(2) by simp
  next
    case False
    then have "2 ^ 49 \<le> N" by simp
    then show ?thesis using autosplit_example_count_large assms(2) by blast
  qed
  then show ?thesis using s by simp
qed

section \<open>The quotas and the split\<close>

lemma autosplit_example_count_1: "autosplit_example_count 1 = Inr (mk_counts 1 0 0)"
proof -
  from autosplit_example_count_small[of 1] obtain tr va te where
    h: "autosplit_example_count 1 = Inr (mk_counts tr va te)"
       "tr = \<lceil>of_int 1 * (8 / 10 :: rat)\<rceil>"
       "va = \<lceil>of_int 1 * (9 / 10 :: rat) - of_int tr\<rceil>" "te = 1 - tr - va" by auto
  have "tr = 1" unfolding h(2) by (rule ceiling_unique) simp_all
  moreover from this have "va = 0" unfolding h(3) by (intro ceiling_unique) simp_all
  ultimately show ?thesis using h(1,4) by simp
qed

lemma autosplit_example_count_100: "autosplit_example_count 100 = Inr (mk_counts 80 10 10)"
proof -
  from autosplit_example_count_small[of 100] obtain tr va te where
    h: "autosplit_example_count 100 = Inr (mk_counts tr va te)"
       "tr = \<lceil>of_int 100 * (8 / 10 :: rat)\<rceil>"
       "va = \<lceil>of_int 100 * (9 / 10 :: rat) - of_int tr\<rceil>" "te = 100 - tr - va" by auto
  have "tr = 80" unfolding h(2) by (rule ceiling_unique) simp_all
  moreover from this have "va = 10" unfolding h(3) by (intro ceiling_unique) simp_all
  ultimately show ?thesis using h(1,4) by simp
qed

lemma autosplit_run_exact:
  assumes "0 \<le> N" "autosplit_example_count N = Inr c" "int (length pairs) = N" "randint_ok rand"
  shows "\<exists>c' fed. AutoSplitUtil_autosplit rand N pairs = Inr (c', fed)
      \<and> int (length (fed TRAIN)) = c TRAIN
      \<and> int (length (fed VALIDATION)) = c VALIDATION
      \<and> int (length (fed TEST)) = c TEST
      \<and> c' TRAIN = 0 \<and> c' VALIDATION = 0 \<and> c' TEST = 0"
proof -
  from autosplit_example_count_sound[OF assms(1,2)] have nn: "counts_nonneg c" and s: "counts_sum c = N"
    by simp_all
  have le: "int (length pairs) \<le> counts_sum c" using assms(3) s by simp
  from autosplit_loop_run[OF assms(4) nn le, of 0 "\<lambda>u. []"] obtain c' fed' where
    run: "autosplit_loop rand 0 c (\<lambda>u. []) pairs = Inr (c', fed')" "counts_nonneg c'"
      "counts_sum c' = counts_sum c - int (length pairs)"
      "\<forall>u. int (length (fed' u)) + c' u = int (length ([] :: phrase_pair list)) + c u"
    by blast
  have "counts_sum c' = 0" using run(3) s assms(3) by simp
  then have z: "c' TRAIN = 0" "c' VALIDATION = 0" "c' TEST = 0"
    using run(2) by (auto simp: counts_sum_def counts_nonneg_def ML_USES_def)
  have "AutoSplitUtil_autosplit rand N pairs = Inr (c', fed')"
    using run(1) assms(2) by (simp add: AutoSplitUtil_autosplit_def err_bind_def)
  moreover have "int (length (fed' TRAIN)) = c TRAIN" "int (length (fed' VALIDATION)) = c VALIDATION"
    "int (length (fed' TEST)) = c TEST"
    using run(4)[rule_format, of TRAIN] run(4)[rule_format, of VALIDATION] run(4)[rule_format, of TEST] z
    by simp_all
  ultimately show ?thesis using z by blast
qed

text \<open>
  C1. Whenever \<^verbatim>\<open>_autosplit_example_count(N)\<close> returns the quotas \<open>c\<close> and exactly \<open>N\<close> pairs are
  fed through \<^verbatim>\<open>AutoSplitUtil.autosplit\<close>, then for every generator that respects the contract
  of \<^verbatim>\<open>random.randint\<close> the run ends without an exception and the TRAIN, VALIDATION and TEST
  exporters have been fed exactly \<open>c TRAIN\<close>, \<open>c VALIDATION\<close> and \<open>c TEST\<close> pairs; for
  \<open>N = 100\<close> these are 80, 10 and 10.
\<close>

theorem autosplit_feeds_exact_counts:
  assumes "0 \<le> N" and "autosplit_example_count N = Inr c" and "int (length pairs) = N"
    and "randint_ok rand"
  shows "\<exists>c' fed. AutoSplitUtil_autosplit rand N pairs = Inr (c', fed)
      \<and> int (length (fed TRAIN)) = c TRAIN
      \<and> int (length (fed VALIDATION)) = c VALIDATION
      \<and> int (length (fed TEST)) = c TEST
      \<and> (N = 100 \<longrightarrow> length (fed TRAIN) = 80 \<and> length (fed VALIDATION) = 10
                      \<and> length (fed TEST) = 10)"
proof -
  from autosplit_run_exact[OF assms] obtain c' fed where
    h: "AutoSplitUtil_autosplit rand N pairs = Inr (c', fed)"
      "int (length (fed TRAIN)) = c TRAIN" "int (length (fed VALIDATION)) = c VALIDATION"
      "int (length (fed TEST)) = c TEST" by blast
  have "length (fed TRAIN) = 80 \<and> length (fed VALIDATION) = 10 \<and> length (fed TEST) = 10"
    if "N = 100"
  proof -
    have "c = mk_counts 80 10 10" using assms(2) autosplit_example_count_100 that by simp
    then show ?thesis using h(2,3,4) by (simp add: mk_counts_def)
  qed
  then show ?thesis using h by blast
qed

theorem autosplit_feeds_exact_counts_witness:
  "(0::int) \<le> 100 \<and> autosplit_example_count 100 = Inr (mk_counts 80 10 10)
   \<and> int (length (replicate 100 (''source'', ''target''))) = 100
   \<and> randint_ok (\<lambda>k lo hi. lo)
   \<and> (\<exists>c' fed. AutoSplitUtil_autosplit (\<lambda>k lo hi. lo) 100 (replicate 100 (''source'', ''target''))
          = Inr (c', fed)
      \<and> length (fed TRAIN) = 80 \<and> length (fed VALIDATION) = 10 \<and> length (fed TEST) = 10)"
proof -
  have h1: "(0::int) \<le> 100" by simp
  have h2: "autosplit_example_count 100 = Inr (mk_counts 80 10 10)"
    by (rule autosplit_example_count_100)
  have h3: "int (length (replicate 100 (''source'', ''target''))) = 100" by simp
  have h4: "randint_ok (\<lambda>k lo hi. lo)" by (simp add: randint_ok_def)
  from autosplit_feeds_exact_counts[OF h1 h2 h3 h4] show ?thesis using h2 h4 by auto
qed

text \<open>
  C2, as amended. For \<open>0 \<le> N \<le> 2 ^ 49\<close> the binary64 computation of
  \<^verbatim>\<open>_autosplit_example_count(N)\<close> returns \<open>train = \<lceil>0.8 N\<rceil>\<close>,
  \<open>validation = \<lceil>0.9 N - train\<rceil>\<close> and \<open>test = N - train - validation\<close>, the ceilings taken
  of the exact rational products, and the three counts sum to \<open>N\<close>. At \<open>N = 2 ^ 53 + 1\<close>
  the float products round differently and the returned train count is one less than
  \<open>\<lceil>0.8 N\<rceil>\<close>.
\<close>

theorem autosplit_example_count_rounding:
  assumes "0 \<le> N" and "N \<le> 2 ^ 49"
  shows "\<exists>train validation test.
           autosplit_example_count N = Inr (mk_counts train validation test)
         \<and> train = \<lceil>of_int N * (8 / 10 :: rat)\<rceil>
         \<and> validation = \<lceil>of_int N * (9 / 10 :: rat) - of_int train\<rceil>
         \<and> test = N - train - validation
         \<and> train + validation + test = N"
  using assms by (rule autosplit_example_count_small)

theorem autosplit_example_count_rounding_witness:
  "(0::int) \<le> 1 \<and> (1::int) \<le> 2 ^ 49
   \<and> autosplit_example_count 1 = Inr (mk_counts 1 0 0)
   \<and> \<lceil>of_int 1 * (8 / 10 :: rat)\<rceil> = 1
   \<and> \<lceil>of_int 1 * (9 / 10 :: rat) - of_int 1\<rceil> = 0"
proof -
  have h1: "(0::int) \<le> 1" and h2: "(1::int) \<le> 2 ^ 49" by simp_all
  from autosplit_example_count_rounding[OF h1 h2] obtain tr va te where
    h: "autosplit_example_count 1 = Inr (mk_counts tr va te)"
       "tr = \<lceil>of_int 1 * (8 / 10 :: rat)\<rceil>"
       "va = \<lceil>of_int 1 * (9 / 10 :: rat) - of_int tr\<rceil>" "te = 1 - tr - va" by auto
  have t: "tr = 1" unfolding h(2) by (rule ceiling_unique) simp_all
  moreover from this have v: "va = 0" unfolding h(3) by (intro ceiling_unique) simp_all
  ultimately show ?thesis using h by simp
qed

lemma binary64_2_53_plus_1: "binary64 9007199254740993 = 9007199254740992"
proof -
  have "binary64 9007199254740993 =
      of_int (round_half_even (9007199254740993 / 2 powi (53 - 52))) * 2 powi (53 - 52)"
    by (rule binary64_unfold) simp_all
  also have "(9007199254740993 :: rat) / 2 powi (53 - 52) = 9007199254740993 / 2" by simp
  also have "round_half_even (9007199254740993 / 2) = 4503599627370496"
    by (subst round_half_even_eval[of 4503599627370496]) simp_all
  finally show ?thesis by simp
qed

theorem autosplit_example_count_rounding_counterexample:
  "autosplit_example_count 9007199254740993
     = Inr (mk_counts 7205759403792794 900719925474099 900719925474100)
   \<and> \<lceil>of_int 9007199254740993 * (8 / 10 :: rat)\<rceil> = 7205759403792795"
proof -
  have f1: "fl 9007199254740993 = Inr 9007199254740992"
    by (simp add: fl_def binary64_2_53_plus_1)
  have f2: "fl 7205759403792794 = Inr 7205759403792794"
    using fl_int[of 7205759403792794] by simp
  have f3: "fl 8106479329266893 = Inr 8106479329266893"
    using fl_int[of 8106479329266893] by simp
  have f4: "fl 900719925474099 = Inr 900719925474099"
    using fl_int[of 900719925474099] by simp
  have "autosplit_example_count 9007199254740993
     = Inr (mk_counts 7205759403792794 900719925474099 900719925474100)"
    unfolding autosplit_example_count_def
    by (simp add: err_bind_def f1 float_0_8_eq float_0_9_eq f2 f3 f4)
  moreover have "\<lceil>of_int 9007199254740993 * (8 / 10 :: rat)\<rceil> = 7205759403792795"
    by (rule ceiling_unique) simp_all
  ultimately show ?thesis by simp
qed

section \<open>The TSV parser\<close>

lemma split_on_nonempty: "split_on sep s \<noteq> []"
  by (induction s) (auto split: list.splits)

lemma split_on_length: "length (split_on sep s) = length (filter (\<lambda>c. c = sep) s) + 1"
  by (induction s) (auto split: list.splits simp: split_on_nonempty)

lemma split_on_no_sep: "sep \<notin> set s \<Longrightarrow> split_on sep s = [s]"
  by (induction s) (auto split: list.splits)

lemma split_on_append:
  "sep \<notin> set a \<Longrightarrow> split_on sep (a @ sep # b) = a # split_on sep b"
  by (induction a) (auto split: list.splits simp: split_on_nonempty)

lemma split_on_two:
  assumes "split_on sep s = [a, b]"
  shows "s = a @ [sep] @ b \<and> sep \<notin> set a \<and> sep \<notin> set b"
  using assms
proof (induction s arbitrary: a)
  case Nil
  then show ?case by simp
next
  case (Cons c cs)
  show ?case
  proof (cases "c = sep")
    case True
    with Cons.prems have a: "a = []" and b: "split_on sep cs = [b]" by simp_all
    have "length (filter (\<lambda>c. c = sep) cs) = 0"
      using split_on_length[of sep cs] b by simp
    then have "sep \<notin> set cs" by (metis (mono_tags, lifting) filter_empty_conv length_0_conv)
    then have "b = cs" using b split_on_no_sep by simp
    then show ?thesis using True a \<open>sep \<notin> set cs\<close> by simp
  next
    case False
    with Cons.prems obtain f where f: "split_on sep cs = [f, b]" "a = c # f"
      by (auto split: list.splits)
    from Cons.IH[OF f(1)] show ?thesis using False f(2) by simp
  qed
qed

lemma rstrip_char_id: "s = [] \<or> last s \<noteq> c \<Longrightarrow> rstrip_char c s = s"
  by (cases s rule: rev_cases) (auto simp: rstrip_char_def)

lemma rstrip_char_snoc: "rstrip_char c (s @ [c]) = rstrip_char c s"
  by (simp add: rstrip_char_def)

lemma rstrip_char_prefix: "\<exists>n. s = rstrip_char c s @ replicate n c"
proof -
  let ?P = "\<lambda>x. x = c"
  let ?k = "length (takeWhile ?P (rev s))"
  have tw: "takeWhile ?P (rev s) = replicate ?k c"
    by (rule replicate_length_same[symmetric]) (auto dest: set_takeWhileD)
  have "rev (takeWhile ?P (rev s) @ dropWhile ?P (rev s)) = s" by simp
  then have "rev (dropWhile ?P (rev s)) @ rev (takeWhile ?P (rev s)) = s"
    by (simp only: rev_append)
  then have "rstrip_char c s @ rev (replicate ?k c) = s"
    unfolding rstrip_char_def using tw by (simp only:)
  then have "s = rstrip_char c s @ replicate ?k c" by simp
  then show ?thesis by (rule exI)
qed

lemma rstrip_char_last: "rstrip_char c s \<noteq> [] \<Longrightarrow> last (rstrip_char c s) \<noteq> c"
proof -
  assume a: "rstrip_char c s \<noteq> []"
  let ?d = "dropWhile (\<lambda>x. x = c) (rev s)"
  have d: "?d \<noteq> []" using a by (simp add: rstrip_char_def)
  then have "\<not> (\<lambda>x. x = c) (hd ?d)" by (rule hd_dropWhile)
  moreover have "last (rev ?d) = hd ?d" using d by (simp add: last_rev)
  ultimately show ?thesis by (simp add: rstrip_char_def)
qed

lemma stream_readline_no_inner_NL:
  "NL \<notin> set (butlast (fst (stream_readline limit s)))"
proof -
  let ?k = "length (takeWhile (\<lambda>c. c \<noteq> NL) s)"
  have pre: "NL \<notin> set (take n s)" if "n \<le> ?k" for n
  proof -
    have "take n s = take n (takeWhile (\<lambda>c. c \<noteq> NL) s)"
      using that by (metis takeWhile_dropWhile_id take_append diff_is_0_eq take_0 append_Nil2 min.absorb2 take_all_iff length_take)
    then show ?thesis by (auto dest!: in_set_takeD set_takeWhileD)
  qed
  show ?thesis
  proof (cases "?k < length s \<and> ?k + 1 \<le> limit")
    case True
    then have "fst (stream_readline limit s) = take (?k + 1) s"
      by (simp add: stream_readline_def Let_def)
    moreover have "butlast (take (?k + 1) s) = take ?k s"
      using True by (simp add: butlast_take)
    ultimately show ?thesis using pre[of ?k] by simp
  next
    case False
    then have f: "fst (stream_readline limit s) = take limit s"
      by (auto simp: stream_readline_def Let_def)
    show ?thesis
    proof (cases "?k < length s")
      case True
      with False have "limit \<le> ?k" by simp
      then have "NL \<notin> set (take limit s)" by (rule pre)
      then show ?thesis using f by (auto dest: in_set_butlastD)
    next
      case False
      then have "?k = length s" using length_takeWhile_le[of "\<lambda>c. c \<noteq> NL" s] by simp
      then have "NL \<notin> set (take (length s) s)" using pre[of "length s"] by simp
      then have "NL \<notin> set s" by simp
      then show ?thesis using f by (auto dest: in_set_butlastD in_set_takeD)
    qed
  qed
qed

lemma rstrip_char_no_inner:
  assumes "c \<notin> set (butlast raw)"
  shows "c \<notin> set (rstrip_char c raw)"
    and "raw = rstrip_char c raw \<or> raw = rstrip_char c raw @ [c]"
proof -
  define a where "a = rstrip_char c raw"
  obtain m where m: "raw = a @ replicate m c" unfolding a_def using rstrip_char_prefix by blast
  have a_last: "a = [] \<or> last a \<noteq> c" unfolding a_def using rstrip_char_last by blast
  have "c \<notin> set a \<and> (raw = a \<or> raw = a @ [c])"
  proof (cases m)
    case 0
    then have r: "raw = a" using m by simp
    have "c \<notin> set a"
    proof (cases a rule: rev_cases)
      case Nil then show ?thesis by simp
    next
      case (snoc ys y)
      then have "butlast raw = ys" "y \<noteq> c" using r a_last by simp_all
      then show ?thesis using assms snoc by simp
    qed
    then show ?thesis using r by simp
  next
    case (Suc j)
    then have "raw = (a @ replicate j c) @ [c]" using m by (simp add: replicate_append_same)
    then have b: "butlast raw = a @ replicate j c" by (simp add: butlast_append)
    have "j = 0"
    proof (cases j)
      case 0 then show ?thesis .
    next
      case (Suc i)
      then have "c \<in> set (butlast raw)" using b by simp
      then show ?thesis using assms by simp
    qed
    then show ?thesis using m Suc b assms by simp
  qed
  then show "c \<notin> set (rstrip_char c raw)"
    and "raw = rstrip_char c raw \<or> raw = rstrip_char c raw @ [c]"
    by (simp_all add: a_def)
qed

lemma line_text_shape:
  assumes "NL \<notin> set (butlast raw)"
  shows "\<exists>n m. raw = line_text raw @ replicate n CR @ replicate m NL \<and> m \<le> 1"
    and "line_text raw \<noteq> [] \<Longrightarrow> last (line_text raw) \<noteq> CR \<and> last (line_text raw) \<noteq> NL"
proof -
  define a where "a = rstrip_char NL raw"
  define b where "b = rstrip_char CR a"
  have nla: "NL \<notin> set a" and ra: "raw = a \<or> raw = a @ [NL]"
    unfolding a_def using rstrip_char_no_inner[OF assms] by simp_all
  obtain n where n: "a = b @ replicate n CR" unfolding b_def using rstrip_char_prefix by blast
  have nlb: "NL \<notin> set b" using nla n by simp
  have "rstrip_char NL b = b"
    by (rule rstrip_char_id) (use nlb in \<open>cases b rule: rev_cases; auto\<close>)
  then have lt: "line_text raw = b" by (simp add: line_text_def a_def b_def)
  have "raw = b @ replicate n CR @ replicate 0 NL \<or> raw = b @ replicate n CR @ replicate 1 NL"
    using ra n by auto
  then show "\<exists>n m. raw = line_text raw @ replicate n CR @ replicate m NL \<and> m \<le> 1"
    unfolding lt by (metis le_numeral_extra(4) zero_le_one)
  show "last (line_text raw) \<noteq> CR \<and> last (line_text raw) \<noteq> NL" if "line_text raw \<noteq> []"
  proof -
    have ne: "b \<noteq> []" using that lt by simp
    then have "last b \<noteq> CR" unfolding b_def by (rule rstrip_char_last)
    moreover have "last b \<in> set b" using ne by simp
    then have "last b \<noteq> NL" using nlb by auto
    ultimately show ?thesis using lt by simp
  qed
qed

lemma readline_InrD:
  assumes "readline decode self check True = Inr (line, self1)"
  shows "decode (line_text (fst (stream_readline SENTENCE_BUFFER_SIZE (input_stream self)))) = Some line"
    and "line_index self1 = next_read_line_index self"
    and "FILE_FORMAT self1 = FILE_FORMAT self"
    and "fst (stream_readline SENTENCE_BUFFER_SIZE (input_stream self)) \<noteq> []"
  using assms
  by (auto simp: readline_def Let_def try_decode_def
      split: prod.splits if_splits option.splits)

lemma TsvParser_next_cases:
  assumes "readline decode self True True = Inr (line, self1)"
  shows "length (filter (\<lambda>c. c = TAB) line) = 1 \<Longrightarrow>
           \<exists>src dst. TsvParser_next_parallel_phrase_pair decode self = Inr ((src, dst), self1)
              \<and> line = src @ [TAB] @ dst \<and> TAB \<notin> set src \<and> TAB \<notin> set dst"
    and "length (filter (\<lambda>c. c = TAB) line) \<noteq> 1 \<Longrightarrow>
           TsvParser_next_parallel_phrase_pair decode self =
             Inl (InvalidFileFormatError (FILE_FORMAT self) (Some (current_line_number self1))
                    ''Each line can only contains 2 phrases.'')"
proof -
  have ff: "FILE_FORMAT self1 = FILE_FORMAT self" using readline_InrD(3)[OF assms] .
  {
    assume "length (filter (\<lambda>c. c = TAB) line) = 1"
    then have "length (split_on TAB line) = 2" by (simp add: split_on_length)
    then obtain src dst where sd: "split_on TAB line = [src, dst]"
      by (cases "split_on TAB line"; simp; case_tac list; simp)
    from split_on_two[OF sd] have "line = src @ [TAB] @ dst \<and> TAB \<notin> set src \<and> TAB \<notin> set dst" .
    moreover have "TsvParser_next_parallel_phrase_pair decode self = Inr ((src, dst), self1)"
      using assms sd by (simp add: TsvParser_next_parallel_phrase_pair_def)
    ultimately show "\<exists>src dst. TsvParser_next_parallel_phrase_pair decode self = Inr ((src, dst), self1)
              \<and> line = src @ [TAB] @ dst \<and> TAB \<notin> set src \<and> TAB \<notin> set dst" by blast
  }
  {
    assume "length (filter (\<lambda>c. c = TAB) line) \<noteq> 1"
    then have "length (split_on TAB line) \<noteq> 2" by (simp add: split_on_length)
    then show "TsvParser_next_parallel_phrase_pair decode self =
             Inl (InvalidFileFormatError (FILE_FORMAT self) (Some (current_line_number self1))
                    ''Each line can only contains 2 phrases.'')"
      using assms ff
      by (auto simp: TsvParser_next_parallel_phrase_pair_def invalid_format_error_def
          split: list.splits)
  }
qed

lemma stream_readline_line:
  assumes "NL \<notin> set l" "length l + 1 \<le> limit"
  shows "stream_readline limit (l @ [NL] @ tail) = (l @ [NL], tail)"
proof -
  have "takeWhile (\<lambda>c. c \<noteq> NL) (l @ NL # tail) = l @ takeWhile (\<lambda>c. c \<noteq> NL) (NL # tail)"
    by (rule takeWhile_append2) (use assms(1) in auto)
  then have k: "length (takeWhile (\<lambda>c. c \<noteq> NL) (l @ NL # tail)) = length l" by simp
  show ?thesis using assms(2) by (simp add: stream_readline_def k Let_def)
qed

lemma readline_line:
  assumes "NL \<notin> set l" "length l + 1 < SENTENCE_BUFFER_SIZE"
    and "input_stream self = l @ [NL] @ tail"
    and "decode (line_text (l @ [NL])) = Some text"
  shows "readline decode self check True =
           Inr (text, self\<lparr>line_index := next_read_line_index self, input_stream := tail,
                          next_read_line_index := next_read_line_index self + 1\<rparr>)"
proof -
  have sr: "stream_readline SENTENCE_BUFFER_SIZE (l @ [NL] @ tail) = (l @ [NL], tail)"
    using assms(1,2) by (intro stream_readline_line) simp_all
  have e: "endswith (l @ [NL]) [NL]" by (simp add: endswith_def)
  have n: "length (l @ [NL]) \<noteq> SENTENCE_BUFFER_SIZE" using assms(2) by simp
  show ?thesis
    using sr e n assms(3,4) by (simp add: readline_def Let_def try_decode_def)
qed

lemma readline_counts_lines:
  assumes "readline decode self check rstrip = Inr (line, self1)"
  shows "line_index self1 = next_read_line_index self"
    and "next_read_line_index self1 = next_read_line_index self
           + (if endswith (fst (stream_readline SENTENCE_BUFFER_SIZE (input_stream self))) [NL]
              then 1 else 0)"
    and "input_stream self1 = snd (stream_readline SENTENCE_BUFFER_SIZE (input_stream self))"
proof -
  let ?raw = "fst (stream_readline SENTENCE_BUFFER_SIZE (input_stream self))"
  have nl: "NL \<notin> set (butlast ?raw)" by (rule stream_readline_no_inner_NL)
  have "\<not> endswith ?raw [NL, CR]"
  proof
    assume "endswith ?raw [NL, CR]"
    then have d: "drop (length ?raw - length [NL, CR]) ?raw = [NL, CR]"
      unfolding endswith_def by (rule conjunct2)
    define pre where "pre = take (length ?raw - length [NL, CR]) ?raw"
    have "pre @ drop (length ?raw - length [NL, CR]) ?raw = ?raw"
      unfolding pre_def by (rule append_take_drop_id)
    then have "?raw = (pre @ [NL]) @ [CR]" using d by simp
    then have "butlast ?raw = pre @ [NL]" by (simp only: butlast_snoc)
    then show False using nl by simp
  qed
  then show "line_index self1 = next_read_line_index self"
    and "next_read_line_index self1 = next_read_line_index self
           + (if endswith ?raw [NL] then 1 else 0)"
    and "input_stream self1 = snd (stream_readline SENTENCE_BUFFER_SIZE (input_stream self))"
    using assms
    by (auto simp: readline_def Let_def try_decode_def
        split: prod.splits if_splits option.splits)
qed

lemma readline_line_index_irrelevant:
  "readline decode (self\<lparr>line_index := a\<rparr>) check rstrip = readline decode self check rstrip"
  by (simp add: readline_def)

lemma TsvParser_next_line_index_irrelevant:
  "TsvParser_next_parallel_phrase_pair decode (self\<lparr>line_index := a\<rparr>)
   = TsvParser_next_parallel_phrase_pair decode self"
  by (simp add: TsvParser_next_parallel_phrase_pair_def readline_line_index_irrelevant)

lemma TsvParser_iterate_line_index_irrelevant:
  "TsvParser_iterate decode (self\<lparr>line_index := a\<rparr>) = TsvParser_iterate decode self"
  by (subst TsvParser_iterate.simps, subst (2) TsvParser_iterate.simps)
     (simp add: TsvParser_next_line_index_irrelevant)

lemma TsvParser_next_good_line:
  assumes "NL \<notin> set l" "length l + 1 < SENTENCE_BUFFER_SIZE"
    and "input_stream self = l @ [NL] @ tail"
    and "decode (line_text (l @ [NL])) = Some (src @ [TAB] @ dst)"
    and "TAB \<notin> set src" "TAB \<notin> set dst"
  shows "TsvParser_next_parallel_phrase_pair decode self =
           Inr ((src, dst), self\<lparr>line_index := next_read_line_index self, input_stream := tail,
                          next_read_line_index := next_read_line_index self + 1\<rparr>)"
proof -
  have "split_on TAB (src @ TAB # dst) = src # split_on TAB dst"
    using assms(5) by (rule split_on_append)
  then have sp: "split_on TAB (src @ [TAB] @ dst) = [src, dst]"
    using split_on_no_sep[OF assms(6)] by simp
  have "readline decode self True True =
      Inr (src @ [TAB] @ dst, self\<lparr>line_index := next_read_line_index self, input_stream := tail,
                          next_read_line_index := next_read_line_index self + 1\<rparr>)"
    by (rule readline_line[OF assms(1,2,3)]) (rule assms(4))
  then show ?thesis
    using sp by (simp add: TsvParser_next_parallel_phrase_pair_def)
qed

lemma TsvParser_next_bad_line:
  assumes "NL \<notin> set l" "length l + 1 < SENTENCE_BUFFER_SIZE"
    and "input_stream self = l @ [NL] @ tail"
    and "decode (line_text (l @ [NL])) = Some text"
    and "length (filter (\<lambda>c. c = TAB) text) \<noteq> 1"
  shows "TsvParser_next_parallel_phrase_pair decode self =
           Inl (InvalidFileFormatError (FILE_FORMAT self) (Some (next_read_line_index self + 1))
                  ''Each line can only contains 2 phrases.'')"
proof -
  have "length (split_on TAB text) \<noteq> 2" using assms(5) by (simp add: split_on_length)
  moreover have "readline decode self True True =
      Inr (text, self\<lparr>line_index := next_read_line_index self, input_stream := tail,
                          next_read_line_index := next_read_line_index self + 1\<rparr>)"
    by (rule readline_line[OF assms(1,2,3)]) (rule assms(4))
  ultimately show ?thesis
    by (auto simp: TsvParser_next_parallel_phrase_pair_def invalid_format_error_def
        current_line_number_def split: list.splits)
qed

lemma TsvParser_iterate_good_lines:
  assumes "\<forall>x\<in>set ls. NL \<notin> set (fst x) \<and> length (fst x) + 1 < SENTENCE_BUFFER_SIZE
             \<and> decode (line_text (fst x @ [NL])) = Some (fst (snd x) @ [TAB] @ snd (snd x))
             \<and> TAB \<notin> set (fst (snd x)) \<and> TAB \<notin> set (snd (snd x))"
    and "input_stream self = concat (map (\<lambda>x. fst x @ [NL]) ls) @ tail"
  shows "TsvParser_iterate decode self =
     (case TsvParser_iterate decode
             (self\<lparr>next_read_line_index := next_read_line_index self + int (length ls),
                   input_stream := tail\<rparr>) of
        (ps, r) \<Rightarrow> (map snd ls @ ps, r))"
  using assms
proof (induction ls arbitrary: self)
  case Nil
  then have "self\<lparr>next_read_line_index := next_read_line_index self + int (length ([] :: (string \<times> string \<times> string) list)),
                   input_stream := tail\<rparr> = self" by simp
  then show ?case by (simp split: prod.splits)
next
  case (Cons x ls)
  obtain l src dst where x: "x = (l, src, dst)" by (cases x)
  define rest where "rest = concat (map (\<lambda>x. fst x @ [NL]) ls) @ tail"
  define self1 where "self1 = self\<lparr>line_index := next_read_line_index self, input_stream := rest,
                          next_read_line_index := next_read_line_index self + 1\<rparr>"
  have g: "NL \<notin> set l" "length l + 1 < SENTENCE_BUFFER_SIZE"
    "decode (line_text (l @ [NL])) = Some (src @ [TAB] @ dst)" "TAB \<notin> set src" "TAB \<notin> set dst"
    using Cons.prems(1) x by auto
  have st: "input_stream self = l @ [NL] @ rest" using Cons.prems(2) x by (simp add: rest_def)
  have n: "TsvParser_next_parallel_phrase_pair decode self = Inr ((src, dst), self1)"
    unfolding self1_def by (rule TsvParser_next_good_line[OF g(1,2) st]) (rule g(3) g(4) g(5))+
  have gs: "\<forall>x\<in>set ls. NL \<notin> set (fst x) \<and> length (fst x) + 1 < SENTENCE_BUFFER_SIZE
             \<and> decode (line_text (fst x @ [NL])) = Some (fst (snd x) @ [TAB] @ snd (snd x))
             \<and> TAB \<notin> set (fst (snd x)) \<and> TAB \<notin> set (snd (snd x))"
    using Cons.prems(1) by simp
  have st1: "input_stream self1 = concat (map (\<lambda>x. fst x @ [NL]) ls) @ tail"
    by (simp add: self1_def rest_def)
  have e: "self1\<lparr>next_read_line_index := next_read_line_index self1 + int (length ls),
                   input_stream := tail\<rparr>
      = (self\<lparr>next_read_line_index := next_read_line_index self + int (length (x # ls)),
                   input_stream := tail\<rparr>)\<lparr>line_index := next_read_line_index self\<rparr>"
    by (simp add: self1_def)
  have "TsvParser_iterate decode self =
      (case TsvParser_iterate decode self1 of (ps, r) \<Rightarrow> ((src, dst) # ps, r))"
    by (subst TsvParser_iterate.simps) (simp add: n)
  also have "TsvParser_iterate decode self1 =
     (case TsvParser_iterate decode
             (self\<lparr>next_read_line_index := next_read_line_index self + int (length (x # ls)),
                   input_stream := tail\<rparr>) of
        (ps, r) \<Rightarrow> (map snd ls @ ps, r))"
    using Cons.IH[OF gs st1] unfolding e TsvParser_iterate_line_index_irrelevant .
  finally show ?case by (simp add: x split: prod.splits)
qed

lemma TsvParser_iterate_finished:
  "input_stream self = [] \<Longrightarrow> TsvParser_iterate decode self = ([], None)"
  by (subst TsvParser_iterate.simps)
     (simp add: TsvParser_next_parallel_phrase_pair_def readline_def stream_readline_def Let_def)

lemma TsvParser_run:
  assumes "\<forall>x\<in>set ls. NL \<notin> set (fst x) \<and> length (fst x) + 1 < SENTENCE_BUFFER_SIZE
             \<and> decode (line_text (fst x @ [NL])) = Some (fst (snd x) @ [TAB] @ snd (snd x))
             \<and> TAB \<notin> set (fst (snd x)) \<and> TAB \<notin> set (snd (snd x))"
  shows "TsvParser_iterate decode
           (TsvParser_init src_code dst_code (concat (map (\<lambda>x. fst x @ [NL]) ls)))
         = (map snd ls, None)"
    and "NL \<notin> set bad \<Longrightarrow> length bad + 1 < SENTENCE_BUFFER_SIZE \<Longrightarrow>
         decode (line_text (bad @ [NL])) = Some text \<Longrightarrow>
         length (filter (\<lambda>c. c = TAB) text) \<noteq> 1 \<Longrightarrow>
         TsvParser_iterate decode
           (TsvParser_init src_code dst_code
              (concat (map (\<lambda>x. fst x @ [NL]) ls) @ bad @ [NL] @ rest))
         = (map snd ls,
            Some (InvalidFileFormatError ''TSV'' (Some (int (length ls) + 1))
                    ''Each line can only contains 2 phrases.''))"
proof -
  let ?S = "\<lambda>s. TsvParser_init src_code dst_code s"
  have "input_stream (?S (concat (map (\<lambda>x. fst x @ [NL]) ls)))
      = concat (map (\<lambda>x. fst x @ [NL]) ls) @ []" by (simp add: TsvParser_init_def)
  from TsvParser_iterate_good_lines[OF assms this]
  show "TsvParser_iterate decode (?S (concat (map (\<lambda>x. fst x @ [NL]) ls))) = (map snd ls, None)"
    by (simp add: TsvParser_iterate_finished)
next
  let ?S = "\<lambda>s. TsvParser_init src_code dst_code s"
  assume b: "NL \<notin> set bad" "length bad + 1 < SENTENCE_BUFFER_SIZE"
    "decode (line_text (bad @ [NL])) = Some text" "length (filter (\<lambda>c. c = TAB) text) \<noteq> 1"
  let ?s = "concat (map (\<lambda>x. fst x @ [NL]) ls) @ bad @ [NL] @ rest"
  define S' where "S' = (?S ?s)\<lparr>next_read_line_index := next_read_line_index (?S ?s) + int (length ls),
                   input_stream := bad @ [NL] @ rest\<rparr>"
  have st: "input_stream (?S ?s) = concat (map (\<lambda>x. fst x @ [NL]) ls) @ (bad @ [NL] @ rest)"
    by (simp add: TsvParser_init_def)
  have i: "TsvParser_iterate decode (?S ?s) =
      (case TsvParser_iterate decode S' of (ps, r) \<Rightarrow> (map snd ls @ ps, r))"
    unfolding S'_def by (rule TsvParser_iterate_good_lines[OF assms st])
  have st': "input_stream S' = bad @ [NL] @ rest" by (simp add: S'_def)
  have "TsvParser_next_parallel_phrase_pair decode S' =
      Inl (InvalidFileFormatError (FILE_FORMAT S') (Some (next_read_line_index S' + 1))
                  ''Each line can only contains 2 phrases.'')"
    by (rule TsvParser_next_bad_line[OF b(1,2) st']) (rule b(3) b(4))+
  then have "TsvParser_iterate decode S' =
      ([], Some (InvalidFileFormatError ''TSV'' (Some (int (length ls) + 1))
                    ''Each line can only contains 2 phrases.''))"
    by (subst TsvParser_iterate.simps) (simp add: S'_def TsvParser_init_def)
  then show "TsvParser_iterate decode (?S ?s)
         = (map snd ls,
            Some (InvalidFileFormatError ''TSV'' (Some (int (length ls) + 1))
                    ''Each line can only contains 2 phrases.''))"
    using i by simp
qed

lemma readline_example1:
  "readline Some (TsvParser_init ''en'' ''zh'' (''Hello'' @ [TAB] @ ''World'' @ [CR, NL] @ ''x'' @ [NL]))
     True True
   = Inr (''Hello'' @ [TAB] @ ''World'',
       (TsvParser_init ''en'' ''zh'' (''Hello'' @ [TAB] @ ''World'' @ [CR, NL] @ ''x'' @ [NL]))
         \<lparr>line_index := 0, next_read_line_index := 1, input_stream := ''x'' @ [NL]\<rparr>)"
  by (simp add: readline_def TsvParser_init_def stream_readline_def SENTENCE_BUFFER_SIZE_def
      Let_def endswith_def line_text_def rstrip_char_def try_decode_def NL_def CR_def TAB_def)

text \<open>
  C7. Whenever \<^verbatim>\<open>readline\<close> returns a line to \<^verbatim>\<open>TsvParser.next_parallel_phrase_pair\<close>, the call
  returns the two tab-separated fields of that line, verbatim, if the line holds exactly one
  tab, and otherwise raises \<^verbatim>\<open>InvalidFileFormatError\<close> with the current line number. The line is
  the decoded text of the raw line without its line feed and without the carriage returns
  before it. \<^verbatim>\<open>readline\<close> sets the line index to the count of terminated lines read so far and
  adds one to that count when the raw line ends with a line feed. So a parser made by the
  constructor, reading lines of two fields each followed by a line with another number of
  fields, yields the pairs of the first lines in order and then raises with the 1-based
  number of the offending line; without such a line it yields all pairs and ends.
\<close>

theorem TsvParser_next_two_fields:
  assumes "readline decode self True True = Inr (line, self1)"
    and "\<forall>x\<in>set ls. NL \<notin> set (fst x) \<and> length (fst x) + 1 < SENTENCE_BUFFER_SIZE
             \<and> decode (line_text (fst x @ [NL])) = Some (fst (snd x) @ [TAB] @ snd (snd x))
             \<and> TAB \<notin> set (fst (snd x)) \<and> TAB \<notin> set (snd (snd x))"
    and "NL \<notin> set bad" and "length bad + 1 < SENTENCE_BUFFER_SIZE"
    and "decode (line_text (bad @ [NL])) = Some text"
    and "length (filter (\<lambda>c. c = TAB) text) \<noteq> 1"
  shows "(length (filter (\<lambda>c. c = TAB) line) = 1 \<longrightarrow>
           (\<exists>src dst. TsvParser_next_parallel_phrase_pair decode self = Inr ((src, dst), self1)
              \<and> line = src @ [TAB] @ dst \<and> TAB \<notin> set src \<and> TAB \<notin> set dst))
       \<and> (length (filter (\<lambda>c. c = TAB) line) \<noteq> 1 \<longrightarrow>
           TsvParser_next_parallel_phrase_pair decode self =
             Inl (InvalidFileFormatError (FILE_FORMAT self) (Some (current_line_number self1))
                    ''Each line can only contains 2 phrases.''))
       \<and> current_line_number self1 = next_read_line_index self + 1
       \<and> line_index self1 = next_read_line_index self
       \<and> next_read_line_index self1 = next_read_line_index self
             + (if endswith (fst (stream_readline SENTENCE_BUFFER_SIZE (input_stream self))) [NL]
                then 1 else 0)
       \<and> input_stream self1 = snd (stream_readline SENTENCE_BUFFER_SIZE (input_stream self))
       \<and> (\<exists>raw n m. raw = fst (stream_readline SENTENCE_BUFFER_SIZE (input_stream self))
            \<and> decode (line_text raw) = Some line
            \<and> raw = line_text raw @ replicate n CR @ replicate m NL \<and> m \<le> 1
            \<and> (line_text raw \<noteq> [] \<longrightarrow> last (line_text raw) \<noteq> CR \<and> last (line_text raw) \<noteq> NL))
       \<and> TsvParser_iterate decode
           (TsvParser_init src_code dst_code
              (concat (map (\<lambda>x. fst x @ [NL]) ls) @ bad @ [NL] @ rest))
         = (map snd ls,
            Some (InvalidFileFormatError ''TSV'' (Some (int (length ls) + 1))
                    ''Each line can only contains 2 phrases.''))
       \<and> TsvParser_iterate decode
           (TsvParser_init src_code dst_code (concat (map (\<lambda>x. fst x @ [NL]) ls)))
         = (map snd ls, None)"
proof -
  let ?raw = "fst (stream_readline SENTENCE_BUFFER_SIZE (input_stream self))"
  have nl: "NL \<notin> set (butlast ?raw)" by (rule stream_readline_no_inner_NL)
  from line_text_shape(1)[OF nl] obtain n m where
    sh: "?raw = line_text ?raw @ replicate n CR @ replicate m NL" "m \<le> 1" by blast
  have a: "current_line_number self1 = next_read_line_index self + 1"
    using readline_InrD(2)[OF assms(1)] by (simp add: current_line_number_def)
  have b: "\<exists>raw n m. raw = ?raw
            \<and> decode (line_text raw) = Some line
            \<and> raw = line_text raw @ replicate n CR @ replicate m NL \<and> m \<le> 1
            \<and> (line_text raw \<noteq> [] \<longrightarrow> last (line_text raw) \<noteq> CR \<and> last (line_text raw) \<noteq> NL)"
    using readline_InrD(1)[OF assms(1)] sh line_text_shape(2)[OF nl] by blast
  note c = readline_counts_lines[OF assms(1)]
  note d = TsvParser_run(2)[OF assms(2,3,4,5,6), of src_code dst_code rest]
  note e = TsvParser_run(1)[OF assms(2), of src_code dst_code]
  show ?thesis
    using TsvParser_next_cases[OF assms(1)] a b c d e by blast
qed

theorem TsvParser_next_two_fields_witness:
  "readline Some (TsvParser_init ''en'' ''zh'' (''Hello'' @ [TAB] @ ''World'' @ [CR, NL] @ ''x'' @ [NL]))
     True True
   = Inr (''Hello'' @ [TAB] @ ''World'',
       (TsvParser_init ''en'' ''zh'' (''Hello'' @ [TAB] @ ''World'' @ [CR, NL] @ ''x'' @ [NL]))
         \<lparr>line_index := 0, next_read_line_index := 1, input_stream := ''x'' @ [NL]\<rparr>)
   \<and> (\<exists>src dst.
        TsvParser_next_parallel_phrase_pair Some
          (TsvParser_init ''en'' ''zh'' (''Hello'' @ [TAB] @ ''World'' @ [CR, NL] @ ''x'' @ [NL]))
        = Inr ((src, dst),
            (TsvParser_init ''en'' ''zh'' (''Hello'' @ [TAB] @ ''World'' @ [CR, NL] @ ''x'' @ [NL]))
              \<lparr>line_index := 0, next_read_line_index := 1, input_stream := ''x'' @ [NL]\<rparr>)
        \<and> ''Hello'' @ [TAB] @ ''World'' = src @ [TAB] @ dst)
   \<and> TsvParser_iterate Some
         (TsvParser_init ''en'' ''zh''
            (concat (map (\<lambda>x. fst x @ [NL])
               [(''Hello'' @ [TAB] @ ''World'' @ [CR], ''Hello'', ''World''),
                (''a'' @ [TAB] @ ''b'', ''a'', ''b'')])
             @ ''no tab'' @ [NL] @ ''x'' @ [TAB] @ ''y'' @ [NL]))
       = ([(''Hello'', ''World''), (''a'', ''b'')],
          Some (InvalidFileFormatError ''TSV'' (Some 3) ''Each line can only contains 2 phrases.''))
   \<and> TsvParser_iterate Some
         (TsvParser_init ''en'' ''zh''
            (concat (map (\<lambda>x. fst x @ [NL])
               [(''Hello'' @ [TAB] @ ''World'' @ [CR], ''Hello'', ''World''),
                (''a'' @ [TAB] @ ''b'', ''a'', ''b'')])))
       = ([(''Hello'', ''World''), (''a'', ''b'')], None)"
proof -
  have h2: "\<forall>x\<in>set [(''Hello'' @ [TAB] @ ''World'' @ [CR], ''Hello'', ''World''),
                (''a'' @ [TAB] @ ''b'', ''a'', ''b'')].
      NL \<notin> set (fst x) \<and> length (fst x) + 1 < SENTENCE_BUFFER_SIZE
      \<and> Some (line_text (fst x @ [NL])) = Some (fst (snd x) @ [TAB] @ snd (snd x))
      \<and> TAB \<notin> set (fst (snd x)) \<and> TAB \<notin> set (snd (snd x))"
    by (simp add: SENTENCE_BUFFER_SIZE_def line_text_def rstrip_char_def NL_def CR_def TAB_def)
  have h3: "NL \<notin> set ''no tab''" by (simp add: NL_def)
  have h4: "length ''no tab'' + 1 < SENTENCE_BUFFER_SIZE" by (simp add: SENTENCE_BUFFER_SIZE_def)
  have h5: "Some (line_text (''no tab'' @ [NL])) = Some ''no tab''"
    by (simp add: line_text_def rstrip_char_def NL_def CR_def)
  have h6: "length (filter (\<lambda>c. c = TAB) ''no tab'') \<noteq> 1" by (simp add: TAB_def)
  note t = TsvParser_next_two_fields[OF readline_example1 h2 h3 h4 h5 h6,
      of "''en''" "''zh''" "''x'' @ [TAB] @ ''y'' @ [NL]"]
  have c1: "length (filter (\<lambda>c. c = TAB) (''Hello'' @ [TAB] @ ''World'')) = 1"
    by (simp add: TAB_def)
  from t c1 have "\<exists>src dst.
        TsvParser_next_parallel_phrase_pair Some
          (TsvParser_init ''en'' ''zh'' (''Hello'' @ [TAB] @ ''World'' @ [CR, NL] @ ''x'' @ [NL]))
        = Inr ((src, dst),
            (TsvParser_init ''en'' ''zh'' (''Hello'' @ [TAB] @ ''World'' @ [CR, NL] @ ''x'' @ [NL]))
              \<lparr>line_index := 0, next_read_line_index := 1, input_stream := ''x'' @ [NL]\<rparr>)
        \<and> ''Hello'' @ [TAB] @ ''World'' = src @ [TAB] @ dst" by blast
  moreover from t have "TsvParser_iterate Some
         (TsvParser_init ''en'' ''zh''
            (concat (map (\<lambda>x. fst x @ [NL])
               [(''Hello'' @ [TAB] @ ''World'' @ [CR], ''Hello'', ''World''),
                (''a'' @ [TAB] @ ''b'', ''a'', ''b'')])
             @ ''no tab'' @ [NL] @ ''x'' @ [TAB] @ ''y'' @ [NL]))
       = ([(''Hello'', ''World''), (''a'', ''b'')],
          Some (InvalidFileFormatError ''TSV'' (Some 3) ''Each line can only contains 2 phrases.''))"
    by simp
  moreover from t have "TsvParser_iterate Some
         (TsvParser_init ''en'' ''zh''
            (concat (map (\<lambda>x. fst x @ [NL])
               [(''Hello'' @ [TAB] @ ''World'' @ [CR], ''Hello'', ''World''),
                (''a'' @ [TAB] @ ''b'', ''a'', ''b'')])))
       = ([(''Hello'', ''World''), (''a'', ''b'')], None)"
    by simp
  ultimately show ?thesis using readline_example1 by simp
qed

lemma stream_readline_long:
  assumes "length pre = limit" "NL \<notin> set pre"
  shows "stream_readline limit (pre @ rest) = (pre, rest)"
proof -
  have "takeWhile (\<lambda>c. c \<noteq> NL) (pre @ rest) = pre @ takeWhile (\<lambda>c. c \<noteq> NL) rest"
    by (rule takeWhile_append2) (use assms(2) in auto)
  then have "limit \<le> length (takeWhile (\<lambda>c. c \<noteq> NL) (pre @ rest))" using assms(1) by simp
  then show ?thesis using assms(1) by (simp add: stream_readline_def Let_def)
qed

lemma endswith_NL_no: "NL \<notin> set s \<Longrightarrow> \<not> endswith s [NL] \<and> \<not> endswith s [NL, CR]"
proof -
  assume a: "NL \<notin> set s"
  have "set (drop n s) \<subseteq> set s" for n by (rule set_drop_subset)
  then have "NL \<notin> set (drop n s)" for n using a by blast
  then have "drop n s \<noteq> [NL]" "drop n s \<noteq> [NL, CR]" for n
    by (metis list.set_intros(1))+
  then show ?thesis by (simp add: endswith_def)
qed

lemma readline_long:
  assumes "length pre = SENTENCE_BUFFER_SIZE" "NL \<notin> set pre" "input_stream self = pre @ rest"
    and "decode (if rstrip then line_text pre else pre) = Some text"
  shows "readline decode self check rstrip =
           Inr (text, self\<lparr>line_index := next_read_line_index self, input_stream := rest\<rparr>)"
proof -
  have ne: "pre \<noteq> []" using assms(1) by (auto simp: SENTENCE_BUFFER_SIZE_def)
  show ?thesis
    using stream_readline_long[OF assms(1,2), of rest] endswith_NL_no[OF assms(2)] ne assms(3,4)
    by (simp add: readline_def Let_def try_decode_def)
qed

lemma line_text_id: "s \<noteq> [] \<Longrightarrow> last s \<noteq> NL \<Longrightarrow> last s \<noteq> CR \<Longrightarrow> line_text s = s"
  by (simp add: line_text_def rstrip_char_id)

text \<open>
  C5. A line longer than \<^verbatim>\<open>_SENTENCE_BUFFER_SIZE\<close> is not refused. \<^verbatim>\<open>readline\<close> checks the
  length only of a chunk that ends with a line feed, so the first 1048576 characters of a
  longer line come back as a line of their own: the stream below is one line of three fields
  and 1048579 characters, and the parser yields two pairs from it and ends normally.
\<close>

theorem TsvParser_long_line_is_split:
  "TsvParser_iterate Some
     (TsvParser_init ''en'' ''zh''
        (''a'' @ [TAB] @ replicate 1048574 (CHR ''b'') @ [TAB] @ ''c'' @ [NL]))
   = ([(''a'', replicate 1048574 (CHR ''b'')), ([], ''c'')], None)"
proof -
  define pre where "pre = ''a'' @ [TAB] @ replicate 1048574 (CHR ''b'')"
  define rest where "rest = [TAB] @ ''c'' @ [NL]"
  define S0 where "S0 = TsvParser_init ''en'' ''zh'' (pre @ rest)"
  define S1 where "S1 = S0\<lparr>line_index := next_read_line_index S0, input_stream := rest\<rparr>"
  define S2 where "S2 = S1\<lparr>line_index := 0, next_read_line_index := 1, input_stream := []\<rparr>"
  have len: "length pre = SENTENCE_BUFFER_SIZE" by (simp add: pre_def SENTENCE_BUFFER_SIZE_def)
  have nl: "NL \<notin> set pre" by (simp add: pre_def NL_def TAB_def)
  have st: "input_stream S0 = pre @ rest" by (simp add: S0_def TsvParser_init_def)
  have "last pre = CHR ''b''" by (simp add: pre_def)
  then have lt: "line_text pre = pre"
    by (intro line_text_id) (simp_all add: pre_def NL_def CR_def)
  have r0: "readline Some S0 True True = Inr (pre, S1)"
    unfolding S1_def by (rule readline_long[OF len nl st]) (simp add: lt)
  have sp: "split_on TAB pre = [''a'', replicate 1048574 (CHR ''b'')]"
  proof -
    have "TAB \<notin> set (replicate 1048574 (CHR ''b''))" by (simp add: TAB_def)
    then have "split_on TAB (replicate 1048574 (CHR ''b'')) = [replicate 1048574 (CHR ''b'')]"
      by (rule split_on_no_sep)
    moreover have "TAB \<notin> set ''a''" by (simp add: TAB_def)
    then have "split_on TAB (''a'' @ TAB # replicate 1048574 (CHR ''b''))
        = ''a'' # split_on TAB (replicate 1048574 (CHR ''b''))" by (rule split_on_append)
    ultimately show ?thesis by (simp add: pre_def)
  qed
  have n0: "TsvParser_next_parallel_phrase_pair Some S0
      = Inr ((''a'', replicate 1048574 (CHR ''b'')), S1)"
    by (simp add: TsvParser_next_parallel_phrase_pair_def r0 sp)
  have r1: "readline Some S1 True True = Inr ([TAB] @ ''c'', S2)"
    by (simp add: readline_def S1_def S2_def S0_def rest_def TsvParser_init_def stream_readline_def
        SENTENCE_BUFFER_SIZE_def Let_def endswith_def line_text_def rstrip_char_def try_decode_def
        NL_def CR_def TAB_def)
  have n1: "TsvParser_next_parallel_phrase_pair Some S1 = Inr (([], ''c''), S2)"
    by (simp add: TsvParser_next_parallel_phrase_pair_def r1 TAB_def)
  have r2: "readline Some S2 True True = Inl ParseFinished"
    by (simp add: readline_def S2_def stream_readline_def Let_def)
  have n2: "TsvParser_next_parallel_phrase_pair Some S2 = Inl ParseFinished"
    by (simp add: TsvParser_next_parallel_phrase_pair_def r2)
  have i2: "TsvParser_iterate Some S2 = ([], None)"
    by (subst TsvParser_iterate.simps) (simp add: n2 del: TsvParser_iterate.simps)
  have i1: "TsvParser_iterate Some S1 = ([([], ''c'')], None)"
    by (subst TsvParser_iterate.simps) (simp add: n1 n2 del: TsvParser_iterate.simps, subst TsvParser_iterate.simps, simp add: n2 del: TsvParser_iterate.simps)
  have i0: "TsvParser_iterate Some S0 = ([(''a'', replicate 1048574 (CHR ''b'')), ([], ''c'')], None)"
    by (subst TsvParser_iterate.simps) (simp add: n0 i1 del: TsvParser_iterate.simps)
  then show ?thesis by (simp add: S0_def pre_def rest_def)
qed

section \<open>The TMX exporter\<close>

lemma TmxExporter_feed_fold_aux:
  "foldl (\<lambda>self p. self\<lparr>tmx_stream := tmx_stream self
            @ encode (TMX_PAIR_TMPL (src_lang_code self) (fst p) (dst_lang_code self) (snd p))\<rparr>)
      ex pairs
   = ex\<lparr>tmx_stream := tmx_stream ex
        @ concat (map (\<lambda>p. encode (TMX_PAIR_TMPL (src_lang_code ex) (fst p) (dst_lang_code ex) (snd p))) pairs)\<rparr>"
  by (induction pairs arbitrary: ex) simp_all

lemma TmxExporter_feed_fold:
  "foldl (\<lambda>self (src, dst). TmxExporter_feed_parallel_phrase_pair encode self src dst) ex pairs
   = ex\<lparr>tmx_stream := tmx_stream ex
        @ concat (map (\<lambda>p. encode (TMX_PAIR_TMPL (src_lang_code ex) (fst p) (dst_lang_code ex) (snd p))) pairs)\<rparr>"
proof -
  have "(\<lambda>self (src, dst). TmxExporter_feed_parallel_phrase_pair encode self src dst)
      = (\<lambda>self p. self\<lparr>tmx_stream := tmx_stream self
            @ encode (TMX_PAIR_TMPL (src_lang_code self) (fst p) (dst_lang_code self) (snd p))\<rparr>)"
    by (simp add: fun_eq_iff split_beta TmxExporter_feed_parallel_phrase_pair_def
        TmxExporter_write_def try_encode_def)
  then show ?thesis by (simp only: TmxExporter_feed_fold_aux)
qed

lemma code_templates:
  "TMX_INIT_TMPL src = spec_wire_open ([NL] @ replicate 8 (CHR '' '')) src"
  "TMX_PAIR_TMPL src a dst b = spec_wire_tu src dst (a, b)"
  "TMX_FINAL = spec_wire_close"
  by (simp_all add: TMX_INIT_TMPL_def TMX_PAIR_TMPL_def TMX_FINAL_def spec_wire_open_def
      spec_wire_header_def spec_wire_tu_def spec_wire_close_def eval_nat_numeral)

text \<open>
  C9, as amended. \<^verbatim>\<open>initialize\<close> writes the XML declaration, the \<^verbatim>\<open>tmx\<close> opener, the
  \<^verbatim>\<open>header\<close> element and the \<^verbatim>\<open>body\<close> opener of section 6 with one difference: the attributes of
  \<^verbatim>\<open>header\<close> are separated by a line feed and eight spaces, not by a single space. Each
  \<^verbatim>\<open>feed_parallel_phrase_pair\<close> appends one \<^verbatim>\<open>tu\<close> with the language codes the constructor was
  given, unchanged, and the raw texts; \<^verbatim>\<open>finalize\<close> appends the closers. Every piece goes
  through the encoder. With single spaces in the header the document differs from what the
  code writes.
\<close>

theorem TmxExporter_output_bytes:
  "tmx_stream (TmxExporter_initialize encode (TmxExporter_init src_code dst_code))
     = encode (spec_wire_open ([NL] @ replicate 8 (CHR '' '')) src_code)
   \<and> src_lang_code (TmxExporter_init src_code dst_code) = src_code
   \<and> dst_lang_code (TmxExporter_init src_code dst_code) = dst_code
   \<and> TmxExporter_feed_parallel_phrase_pair encode self src dst
     = self\<lparr>tmx_stream := tmx_stream self
          @ encode (spec_wire_tu (src_lang_code self) (dst_lang_code self) (src, dst))\<rparr>
   \<and> TmxExporter_finalize encode self
     = self\<lparr>tmx_stream := tmx_stream self @ encode spec_wire_close\<rparr>
   \<and> TmxExporter_export encode src_code dst_code pairs
     = concat (map encode
         (spec_wire_pieces ([NL] @ replicate 8 (CHR '' '')) src_code dst_code pairs))
   \<and> spec_wire_tu src_code dst_code (src, dst) =
       ''    <tu>'' @ [NL] @
       ''      <tuv xml:lang='' @ [CHR 0x22] @ src_code @ [CHR 0x22] @ ''><seg>'' @ src
         @ ''</seg></tuv>'' @ [NL] @
       ''      <tuv xml:lang='' @ [CHR 0x22] @ dst_code @ [CHR 0x22] @ ''><seg>'' @ dst
         @ ''</seg></tuv>'' @ [NL] @
       ''    </tu>'' @ [NL]"
proof -
  have e: "TmxExporter_export encode src_code dst_code pairs
     = concat (map encode
         (spec_wire_pieces ([NL] @ replicate 8 (CHR '' '')) src_code dst_code pairs))"
    by (simp add: TmxExporter_export_def TmxExporter_initialize_def TmxExporter_finalize_def
      TmxExporter_init_def TmxExporter_write_def try_encode_def TmxExporter_feed_fold
      code_templates spec_wire_pieces_def comp_def)
  have t: "spec_wire_tu src_code dst_code (src, dst) =
       ''    <tu>'' @ [NL] @
       ''      <tuv xml:lang='' @ [CHR 0x22] @ src_code @ [CHR 0x22] @ ''><seg>'' @ src
         @ ''</seg></tuv>'' @ [NL] @
       ''      <tuv xml:lang='' @ [CHR 0x22] @ dst_code @ [CHR 0x22] @ ''><seg>'' @ dst
         @ ''</seg></tuv>'' @ [NL] @
       ''    </tu>'' @ [NL]"
    by (simp add: spec_wire_tu_def)
  show ?thesis
    unfolding e t[symmetric]
    by (simp add: TmxExporter_initialize_def TmxExporter_finalize_def
      TmxExporter_init_def TmxExporter_write_def try_encode_def
      TmxExporter_feed_parallel_phrase_pair_def code_templates)
qed

theorem TmxExporter_output_bytes_counterexample:
  "TmxExporter_export (\<lambda>text. text) ''en'' ''zh'' []
     \<noteq> concat (spec_wire_pieces '' '' ''en'' ''zh'' [])"
  by (simp add: TmxExporter_export_def TmxExporter_initialize_def TmxExporter_finalize_def
      TmxExporter_init_def TmxExporter_write_def try_encode_def TMX_INIT_TMPL_def TMX_FINAL_def
      spec_wire_pieces_def spec_wire_open_def spec_wire_header_def spec_wire_close_def NL_def)

section \<open>Locales and the TMX parser\<close>

subsection \<open>Locales and the header\<close>

lemma split_on_first:
  "(case split_on sep s of [] \<Rightarrow> [] | first # rest \<Rightarrow> first) = takeWhile (\<lambda>c. c \<noteq> sep) s"
  by (induction s) (auto split: list.splits)

lemma parse_locale_takeWhile:
  "parse_locale lang_code = takeWhile (\<lambda>c. c \<noteq> CHR ''-'') (lower lang_code)"
  by (simp add: parse_locale_def split_on_first)

lemma lower_en_US: "parse_locale ''en-US'' = ''en''" "parse_locale ''en-GB'' = ''en''"
  "parse_locale ''en'' = ''en''" "parse_locale ''zh'' = ''zh''" "parse_locale '''' = ''''"
  by (simp_all add: parse_locale_takeWhile lower_def lower_char_def Let_def)



subsection \<open>Tag structure\<close>

lemma verify_element_unrecognized:
  "map_of PARENT_TAG_NAME t = None \<Longrightarrow> verify_element self act t = Inr self"
  by (simp add: verify_element_def)

lemma verify_element_start_wrong_parent:
  assumes "map_of PARENT_TAG_NAME t = Some parent" "tag_name_stack self \<noteq> []"
    and "last (tag_name_stack self) \<noteq> parent"
  shows "verify_element self Start t =
     Inl (InvalidFileFormatError (FILE_FORMAT self) (Some (current_line_number self))
       (''Invalid tag structure: <'' @ t @ ''> should go inside <'' @ parent
          @ ''>, not <'' @ last (tag_name_stack self) @ ''>.''))"
  using assms by (simp add: verify_element_def stack_top_def invalid_format_error_def)

lemma required_parents:
  "map_of PARENT_TAG_NAME ''tmx'' = Some ''''"
  "map_of PARENT_TAG_NAME ''header'' = Some ''tmx''"
  "map_of PARENT_TAG_NAME ''body'' = Some ''tmx''"
  "map_of PARENT_TAG_NAME ''tu'' = Some ''body''"
  "map_of PARENT_TAG_NAME ''tuv'' = Some ''tu''"
  "map_of PARENT_TAG_NAME ''seg'' = Some ''tuv''"
  by (simp_all add: PARENT_TAG_NAME_def)

lemma verify_element_duplicate_header:
  assumes "tag_name_stack self \<noteq> []" "last (tag_name_stack self) = ''tmx''" "header_inited self"
  shows "verify_element self Start ''header'' =
     Inl (InvalidFileFormatError (FILE_FORMAT self) (Some (current_line_number self))
       ''Duplicate header tag.'')"
  using assms
  by (simp add: verify_element_def required_parents stack_top_def invalid_format_error_def)

lemma verify_element_body_before_header:
  assumes "tag_name_stack self \<noteq> []" "last (tag_name_stack self) = ''tmx''"
    and "\<not> body_inited self" "\<not> header_inited self"
  shows "verify_element self Start ''body'' =
     Inl (InvalidFileFormatError (FILE_FORMAT self) (Some (current_line_number self))
       ''header should before body.'')"
  using assms
  by (simp add: verify_element_def required_parents stack_top_def invalid_format_error_def
      current_line_number_def)

lemma verify_element_end_mismatch:
  assumes "map_of PARENT_TAG_NAME t = Some parent" "tag_name_stack self \<noteq> []"
    and "last (tag_name_stack self) \<noteq> t"
  shows "verify_element self End t =
     Inl (InvalidFileFormatError (FILE_FORMAT self) (Some (current_line_number self))
       (''Unclosed tag '' @ last (tag_name_stack self) @ ''.''))"
  using assms by (simp add: verify_element_def stack_top_def invalid_format_error_def)

lemma body_inited_never_set:
  "verify_element self act t = Inr self' \<Longrightarrow> body_inited self' = body_inited self"
  by (auto simp: verify_element_def Let_def
      split: option.splits action.splits sum.splits if_splits)

lemma process_events_Inl:
  "process_event self ev = Inl e \<Longrightarrow> process_events self (ev # evs) = Inl e"
  by simp

lemma TmxParser_invalid_tmx_example:
  assumes "feed x0 ''<tmx><tu></tu></tmx>'' =
             Inr (x1, (Start, Element ''tmx'' a1 c1) # (Start, Element ''tu'' a2 c2) # evs)"
    and "decode ''<tmx><tu></tu></tmx>'' = Some ''<tmx><tu></tu></tmx>''"
  shows "TmxParser_next_parallel_phrase_pair feed close decode
           (TmxParser_init ''en'' ''zh'' ''<tmx><tu></tu></tmx>'' x0)
         = Inl (InvalidFileFormatError ''TMX'' (Some 1)
             ''Invalid tag structure: <tu> should go inside <body>, not <tmx>.'')"
proof -
  define S0 where "S0 = (TmxParser_init ''en'' ''zh'' ''<tmx><tu></tu></tmx>'' x0)
      \<lparr>buffered_pairs_index := 0, buffered_parsed_pairs := []\<rparr>"
  define S1 where "S1 = S0\<lparr>line_index := 0, input_stream := []\<rparr>"
  have r: "readline decode S0 False False = Inr (''<tmx><tu></tu></tmx>'', S1)"
    using assms(2)
    by (simp add: readline_def S0_def S1_def TmxParser_init_def stream_readline_def
        SENTENCE_BUFFER_SIZE_def Let_def endswith_def try_decode_def NL_def CR_def)
  have x: "xml_parser S1 = x0" by (simp add: S1_def S0_def TmxParser_init_def)
  have p: "process_events (S1\<lparr>xml_parser := x1\<rparr>)
      ((Start, Element ''tmx'' a1 c1) # (Start, Element ''tu'' a2 c2) # evs)
      = Inl (InvalidFileFormatError ''TMX'' (Some 1)
             ''Invalid tag structure: <tu> should go inside <body>, not <tmx>.'')"
    by (simp add: process_event_def verify_element_def err_bind_def required_parents
        stack_top_def S1_def S0_def TmxParser_init_def invalid_format_error_def
        current_line_number_def)
  have "read_next_loop feed close decode S0 0
      = Inl (InvalidFileFormatError ''TMX'' (Some 1)
             ''Invalid tag structure: <tu> should go inside <body>, not <tmx>.'')"
    by (subst read_next_loop.simps) (simp add: r x assms(1) p del: process_events.simps)
  then show ?thesis
    by (simp add: TmxParser_next_parallel_phrase_pair_def read_next_def err_bind_def S0_def
        TmxParser_init_def)
qed

text \<open>
  C3. \<^verbatim>\<open>_verify_element\<close> raises for a recognized tag that starts under another parent than the
  required one, for a second \<^verbatim>\<open>header\<close>, for a \<^verbatim>\<open>body\<close> before any \<^verbatim>\<open>header\<close> and for an end tag
  that is not the innermost open one, and \<^verbatim>\<open><tmx><tu></tu></tmx>\<close> fails at line 1, as the
  lemmas above show. A second \<^verbatim>\<open>body\<close> is different: \<^verbatim>\<open>_body_inited\<close> is tested but no statement
  ever sets it, so the events of \<^verbatim>\<open><tmx><header/><body></body><body></body></tmx>\<close> are all
  accepted, and a parser fed with them reads the document to its end and finishes with
  \<^verbatim>\<open>ParseFinished\<close>, without \<^verbatim>\<open>InvalidFileFormatError\<close>.
\<close>

theorem verify_element_accepts_second_body:
  "process_events (TmxParser_init ''en'' ''zh'' [] ())
     [(Start, Element ''tmx'' [] []),
      (Start, Element ''header'' [] []), (End, Element ''header'' [] []),
      (Start, Element ''body'' [] []), (End, Element ''body'' [] []),
      (Start, Element ''body'' [] []), (End, Element ''body'' [] []),
      (End, Element ''tmx'' [] [Child (Element ''header'' [] []), Child (Element ''body'' [] []),
                                Child (Element ''body'' [] [])])]
   = Inr ((TmxParser_init ''en'' ''zh'' [] ())\<lparr>header_inited := True\<rparr>)
   \<and> TmxParser_next_parallel_phrase_pair
       (\<lambda>x buff. Inr (x,
          [(Start, Element ''tmx'' [] []),
           (Start, Element ''header'' [] []), (End, Element ''header'' [] []),
           (Start, Element ''body'' [] []), (End, Element ''body'' [] []),
           (Start, Element ''body'' [] []), (End, Element ''body'' [] []),
           (End, Element ''tmx'' [] [Child (Element ''header'' [] []), Child (Element ''body'' [] []),
                                     Child (Element ''body'' [] [])])]))
       (\<lambda>x. None) Some
       (TmxParser_init ''en'' ''zh'' ''<tmx><header/><body></body><body></body></tmx>'' ())
     = Inl ParseFinished"
proof -
  let ?evs = "[(Start, Element ''tmx'' [] []),
      (Start, Element ''header'' [] []), (End, Element ''header'' [] []),
      (Start, Element ''body'' [] []), (End, Element ''body'' [] []),
      (Start, Element ''body'' [] []), (End, Element ''body'' [] []),
      (End, Element ''tmx'' [] [Child (Element ''header'' [] []), Child (Element ''body'' [] []),
                                Child (Element ''body'' [] [])])]"
  let ?doc = "''<tmx><header/><body></body><body></body></tmx>''"
  define S0 where "S0 = (TmxParser_init ''en'' ''zh'' ?doc ())
      \<lparr>buffered_pairs_index := 0, buffered_parsed_pairs := []\<rparr>"
  define S1 where "S1 = S0\<lparr>line_index := 0, input_stream := []\<rparr>"
  define S2 where "S2 = S1\<lparr>header_inited := True\<rparr>"
  have a: "process_events (TmxParser_init ''en'' ''zh'' [] ()) ?evs
      = Inr ((TmxParser_init ''en'' ''zh'' [] ())\<lparr>header_inited := True\<rparr>)"
    by (simp add: process_event_def verify_element_def err_bind_def required_parents stack_top_def
        TmxParser_init_def parse_header_element_def truthy_def Let_def)
  have r: "readline Some S0 False False = Inr (?doc, S1)"
    by (simp add: readline_def S0_def S1_def TmxParser_init_def stream_readline_def
        SENTENCE_BUFFER_SIZE_def Let_def endswith_def try_decode_def NL_def CR_def)
  have p: "process_events (S1\<lparr>xml_parser := ()\<rparr>) ?evs = Inr S2"
    by (simp add: process_event_def verify_element_def err_bind_def required_parents stack_top_def
        S2_def S1_def S0_def TmxParser_init_def parse_header_element_def truthy_def Let_def)
  have b2: "buffered_parsed_pairs S2 = []" "input_stream S2 = []"
    by (simp_all add: S2_def S1_def S0_def TmxParser_init_def)
  have r2: "readline Some S2 False False = Inl ParseFinished"
    by (simp add: readline_def b2 stream_readline_def SENTENCE_BUFFER_SIZE_def Let_def)
  have l2: "read_next_loop fd (\<lambda>x. None) Some S2 n = Inl ParseFinished" for n fd
    by (subst read_next_loop.simps) (simp add: r2)
  have "read_next_loop (\<lambda>x buff. Inr (x, ?evs)) (\<lambda>x. None) Some S0 0 = Inl ParseFinished"
    by (subst read_next_loop.simps)
      (simp add: r p b2 l2 SENTENCE_BUFFER_SIZE_def Let_def del: process_events.simps)
  then have "TmxParser_next_parallel_phrase_pair (\<lambda>x buff. Inr (x, ?evs)) (\<lambda>x. None) Some
       (TmxParser_init ''en'' ''zh'' ?doc ()) = Inl ParseFinished"
    by (simp add: TmxParser_next_parallel_phrase_pair_def read_next_def err_bind_def S0_def
        TmxParser_init_def)
  with a show ?thesis by simp
qed

subsection \<open>Translation units without a text\<close>

lemma skipped_verify:
  "verify_element self act t = Inr self' \<Longrightarrow> skipped_phrases self' = skipped_phrases self"
  by (auto simp: verify_element_def Let_def
      split: option.splits action.splits sum.splits if_splits)

lemma skipped_header:
  "parse_header_element self e = Inr self' \<Longrightarrow> skipped_phrases self' = skipped_phrases self"
  by (auto simp: parse_header_element_def Let_def split: if_splits)

lemma skipped_event:
  "process_event self ev = Inr self' \<Longrightarrow> skipped_phrases self' = skipped_phrases self"
  by (auto simp: process_event_def err_bind_def skip_invalid_tmx_data_def
      split: prod.splits sum.splits if_splits dest!: skipped_verify skipped_header)

lemma skipped_events:
  "process_events self evs = Inr self' \<Longrightarrow> skipped_phrases self' = skipped_phrases self"
  by (induction evs arbitrary: self) (auto split: sum.splits dest!: skipped_event)

lemma skipped_readline:
  "readline decode self c r = Inr (l, self') \<Longrightarrow> skipped_phrases self' = skipped_phrases self"
  by (auto simp: readline_def Let_def split: prod.splits if_splits sum.splits)

lemma skipped_read_next_loop:
  "read_next_loop feed close decode self n = Inr self' \<Longrightarrow>
   skipped_phrases self' = skipped_phrases self"
proof (induction feed close decode self n rule: read_next_loop.induct)
  case (1 feed close decode self n)
  from "1.prems" obtain buff self1 where
    r: "readline decode self False False = Inr (buff, self1)"
    by (subst (asm) read_next_loop.simps) (auto split: sum.splits option.splits if_splits)
  from "1.prems" r obtain x events where
    f: "feed (xml_parser self1) buff = Inr (x, events)"
    by (subst (asm) read_next_loop.simps) (auto split: sum.splits)
  from "1.prems" r f obtain self2 where
    p: "process_events (self1\<lparr>xml_parser := x\<rparr>) events = Inr self2"
    by (subst (asm) read_next_loop.simps) (auto split: sum.splits)
  have s2: "skipped_phrases self2 = skipped_phrases self"
    using skipped_events[OF p] skipped_readline[OF r] by simp
  show ?case
  proof (cases "buffered_parsed_pairs self2 \<noteq> []")
    case True
    then have "self' = self2" using "1.prems" r f p
      by (subst (asm) read_next_loop.simps) simp
    then show ?thesis using s2 by simp
  next
    case False
    then have nx: "\<not> SENTENCE_BUFFER_SIZE < n + length buff"
      and rec: "read_next_loop feed close decode self2 (n + length buff) = Inr self'"
      using "1.prems" r f p
      by (subst (asm) read_next_loop.simps; simp add: Let_def split: if_splits)+
    have "skipped_phrases self' = skipped_phrases self2"
      by (rule "1.IH"[OF r refl f refl p False refl nx rec])
    then show ?thesis using s2 by simp
  qed
qed

lemma verify_element_end_tu:
  assumes "tag_name_stack self \<noteq> []" "last (tag_name_stack self) = ''tu''"
  shows "verify_element self End ''tu'' = Inr (self\<lparr>tag_name_stack := butlast (tag_name_stack self)\<rparr>)"
  using assms by (simp add: verify_element_def required_parents stack_top_def)

lemma parse_tu_element_messages:
  assumes "parse_tu_children (tmx_src_lang self) (tmx_dst_lang self) (None, None)
             (child_elements cs) = (src, dst)"
  shows "parse_tu_element self (Element ''tu'' attrib cs) =
       (src, dst,
        if \<not> truthy src \<and> \<not> truthy dst
        then Some ''No sentence found in source and target languages in this <tu>''
        else if \<not> truthy src then Some ''No sentence found in source language in this <tu>''
        else if \<not> truthy dst then Some ''No sentence found in target language in this <tu>''
        else None)"
  using assms by (simp add: parse_tu_element_def)

lemma process_event_end_tu:
  assumes "tag_name_stack self \<noteq> []" "last (tag_name_stack self) = ''tu''"
    and "parse_tu_children (tmx_src_lang self) (tmx_dst_lang self) (None, None)
           (child_elements cs) = (src, dst)"
  shows "process_event self (End, Element ''tu'' attrib cs) =
       (if truthy src \<and> truthy dst
        then Inr (self\<lparr>tag_name_stack := butlast (tag_name_stack self),
                      buffered_parsed_pairs := buffered_parsed_pairs self @ [(src, dst)]\<rparr>)
        else Inl (InvalidFileFormatError (FILE_FORMAT self) (Some (current_line_number self))
               (if \<not> truthy src \<and> \<not> truthy dst
                then ''No sentence found in source and target languages in this <tu>''
                else if \<not> truthy src then ''No sentence found in source language in this <tu>''
                else ''No sentence found in target language in this <tu>'')))"
proof -
  let ?s1 = "self\<lparr>tag_name_stack := butlast (tag_name_stack self)\<rparr>"
  have p: "parse_tu_children (tmx_src_lang ?s1) (tmx_dst_lang ?s1) (None, None)
             (child_elements cs) = (src, dst)"
    using assms(3) by simp
  show ?thesis
    unfolding process_event_def
    by (simp add: verify_element_end_tu[OF assms(1,2)] err_bind_def
        parse_tu_element_messages[OF p] skip_invalid_tmx_data_def invalid_format_error_def
        current_line_number_def truthy_def del: parse_tu_children.simps)
qed

lemma skipped_next:
  assumes "TmxParser_next_parallel_phrase_pair feed close decode self = Inr (pair, self')"
  shows "skipped_phrases self' = skipped_phrases self"
proof -
  from assms obtain self1 where
    a: "(if length (buffered_parsed_pairs self) \<le> buffered_pairs_index self
         then read_next feed close decode self else Inr self) = Inr self1"
    and b: "self' = self1\<lparr>buffered_pairs_index := buffered_pairs_index self1 + 1\<rparr>"
    by (auto simp: TmxParser_next_parallel_phrase_pair_def err_bind_def
        split: sum.splits if_splits)
  have "skipped_phrases self1 = skipped_phrases self"
  proof (cases "length (buffered_parsed_pairs self) \<le> buffered_pairs_index self")
    case True
    with a have "read_next_loop feed close decode
       (self\<lparr>buffered_pairs_index := 0, buffered_parsed_pairs := []\<rparr>) 0 = Inr self1"
      by (simp add: read_next_def)
    from skipped_read_next_loop[OF this] show ?thesis by simp
  next
    case False
    with a show ?thesis by simp
  qed
  with b show ?thesis by simp
qed

text \<open>
  C4. \<^verbatim>\<open>_skip_invalid_tmx_data()\<close> is false. When a \<^verbatim>\<open>tu\<close> element ends as the innermost open tag,
  \<^verbatim>\<open>_parse_tu_element\<close> gives the message about source and target when both texts are missing,
  else the message about the source language when the source text is missing, else the
  message about the target language when the target text is missing. With a message the
  event raises \<^verbatim>\<open>InvalidFileFormatError\<close> with that message and the current line number at once,
  also when further events follow; without one the pair is appended to the buffer. No run of
  events and no call of \<^verbatim>\<open>next_parallel_phrase_pair\<close> that returns changes the list of skipped
  phrases.
\<close>

theorem TmxParser_tu_error_raises:
  assumes "tag_name_stack self \<noteq> []" and "last (tag_name_stack self) = ''tu''"
    and "parse_tu_children (tmx_src_lang self) (tmx_dst_lang self) (None, None)
           (child_elements cs) = (src, dst)"
  shows "\<not> skip_invalid_tmx_data
     \<and> parse_tu_element self (Element ''tu'' attrib cs) =
         (src, dst,
          if \<not> truthy src \<and> \<not> truthy dst
          then Some ''No sentence found in source and target languages in this <tu>''
          else if \<not> truthy src then Some ''No sentence found in source language in this <tu>''
          else if \<not> truthy dst then Some ''No sentence found in target language in this <tu>''
          else None)
     \<and> (truthy src \<and> truthy dst \<longrightarrow>
          process_event self (End, Element ''tu'' attrib cs) =
            Inr (self\<lparr>tag_name_stack := butlast (tag_name_stack self),
                      buffered_parsed_pairs := buffered_parsed_pairs self @ [(src, dst)]\<rparr>))
     \<and> (\<not> (truthy src \<and> truthy dst) \<longrightarrow>
          process_event self (End, Element ''tu'' attrib cs) =
            Inl (InvalidFileFormatError (FILE_FORMAT self) (Some (current_line_number self))
               (if \<not> truthy src \<and> \<not> truthy dst
                then ''No sentence found in source and target languages in this <tu>''
                else if \<not> truthy src then ''No sentence found in source language in this <tu>''
                else ''No sentence found in target language in this <tu>''))
          \<and> process_events self ((End, Element ''tu'' attrib cs) # evs) =
            Inl (InvalidFileFormatError (FILE_FORMAT self) (Some (current_line_number self))
               (if \<not> truthy src \<and> \<not> truthy dst
                then ''No sentence found in source and target languages in this <tu>''
                else if \<not> truthy src then ''No sentence found in source language in this <tu>''
                else ''No sentence found in target language in this <tu>'')))
     \<and> (\<forall>self'. process_events self evs' = Inr self' \<longrightarrow>
            skipped_phrases self' = skipped_phrases self)
     \<and> (\<forall>pair self'. TmxParser_next_parallel_phrase_pair feed close decode self = Inr (pair, self')
            \<longrightarrow> skipped_phrases self' = skipped_phrases self)"
proof -
  note e = process_event_end_tu[OF assms, of attrib]
  have 1: "\<not> skip_invalid_tmx_data" by (simp add: skip_invalid_tmx_data_def)
  note 2 = parse_tu_element_messages[OF assms(3), of attrib]
  have 3: "truthy src \<and> truthy dst \<longrightarrow>
          process_event self (End, Element ''tu'' attrib cs) =
            Inr (self\<lparr>tag_name_stack := butlast (tag_name_stack self),
                      buffered_parsed_pairs := buffered_parsed_pairs self @ [(src, dst)]\<rparr>)"
    using e by simp
  have 4: "\<not> (truthy src \<and> truthy dst) \<longrightarrow>
          process_event self (End, Element ''tu'' attrib cs) =
            Inl (InvalidFileFormatError (FILE_FORMAT self) (Some (current_line_number self))
               (if \<not> truthy src \<and> \<not> truthy dst
                then ''No sentence found in source and target languages in this <tu>''
                else if \<not> truthy src then ''No sentence found in source language in this <tu>''
                else ''No sentence found in target language in this <tu>''))
          \<and> process_events self ((End, Element ''tu'' attrib cs) # evs) =
            Inl (InvalidFileFormatError (FILE_FORMAT self) (Some (current_line_number self))
               (if \<not> truthy src \<and> \<not> truthy dst
                then ''No sentence found in source and target languages in this <tu>''
                else if \<not> truthy src then ''No sentence found in source language in this <tu>''
                else ''No sentence found in target language in this <tu>''))"
    using e by (simp del: process_event_def)
  have 5: "\<forall>self'. process_events self evs' = Inr self' \<longrightarrow>
            skipped_phrases self' = skipped_phrases self"
    using skipped_events by blast
  have 6: "\<forall>pair self'. TmxParser_next_parallel_phrase_pair feed close decode self = Inr (pair, self')
            \<longrightarrow> skipped_phrases self' = skipped_phrases self"
    using skipped_next by blast
  from 1 2 3 4 5 6 show ?thesis by blast
qed

lemma parse_locale_examples:
  "parse_locale ''ja'' = ''ja''" "parse_locale ''ko'' = ''ko''"
  by (simp_all add: parse_locale_takeWhile lower_def lower_char_def Let_def)

lemma strip_examples:
  "strip ''x'' = ''x''" "strip ''y'' = ''y''" "strip ''Hello'' = ''Hello''"
  "strip ''Ni hao'' = ''Ni hao''"
  by (simp_all add: strip_def isspace_def Let_def)

theorem TmxParser_tu_error_raises_witness:
  "parse_tu_children ''en'' ''zh'' (None, None)
     (child_elements
        [Child (Element ''tuv'' [(XML_LANG, ''ja'')] [Child (Element ''seg'' [] [Text ''x''])]),
         Child (Element ''tuv'' [(XML_LANG, ''ko'')] [Child (Element ''seg'' [] [Text ''y''])])])
   = (None, None)
   \<and> process_event
       ((TmxParser_init ''en'' ''zh'' [] ())
          \<lparr>tag_name_stack := ['''', ''tmx'', ''body'', ''tu''], header_inited := True\<rparr>)
       (End, Element ''tu'' []
          [Child (Element ''tuv'' [(XML_LANG, ''ja'')] [Child (Element ''seg'' [] [Text ''x''])]),
           Child (Element ''tuv'' [(XML_LANG, ''ko'')] [Child (Element ''seg'' [] [Text ''y''])])])
     = Inl (InvalidFileFormatError ''TMX'' (Some 1)
              ''No sentence found in source and target languages in this <tu>'')
   \<and> process_events
       ((TmxParser_init ''en'' ''zh'' [] ())
          \<lparr>tag_name_stack := ['''', ''tmx'', ''body'', ''tu''], header_inited := True\<rparr>)
       [(End, Element ''tu'' []
          [Child (Element ''tuv'' [(XML_LANG, ''en'')] [Child (Element ''seg'' [] [Text ''Hello''])]),
           Child (Element ''tuv'' [(XML_LANG, ''zh'')] [Child (Element ''seg'' [] [Text ''Ni hao''])])])]
     = Inr ((TmxParser_init ''en'' ''zh'' [] ())
          \<lparr>tag_name_stack := ['''', ''tmx'', ''body''], header_inited := True,
            buffered_parsed_pairs := [(Some ''Hello'', Some ''Ni hao'')]\<rparr>)
   \<and> skipped_phrases ((TmxParser_init ''en'' ''zh'' [] ())
          \<lparr>tag_name_stack := ['''', ''tmx'', ''body''], header_inited := True,
            buffered_parsed_pairs := [(Some ''Hello'', Some ''Ni hao'')]\<rparr>) = []"
proof -
  let ?S = "(TmxParser_init ''en'' ''zh'' [] ())
          \<lparr>tag_name_stack := ['''', ''tmx'', ''body'', ''tu''], header_inited := True\<rparr>"
  let ?bad = "[Child (Element ''tuv'' [(XML_LANG, ''ja'')] [Child (Element ''seg'' [] [Text ''x''])]),
         Child (Element ''tuv'' [(XML_LANG, ''ko'')] [Child (Element ''seg'' [] [Text ''y''])])]"
  let ?good = "[(End, Element ''tu'' []
          [Child (Element ''tuv'' [(XML_LANG, ''en'')] [Child (Element ''seg'' [] [Text ''Hello''])]),
           Child (Element ''tuv'' [(XML_LANG, ''zh'')] [Child (Element ''seg'' [] [Text ''Ni hao''])])])]"
  have h1: "tag_name_stack ?S \<noteq> []" by simp
  have h2: "last (tag_name_stack ?S) = ''tu''" by simp
  have l: "tmx_src_lang ?S = ''en''" "tmx_dst_lang ?S = ''zh''"
    by (simp_all add: TmxParser_init_def lower_en_US)
  have p: "parse_tu_children ''en'' ''zh'' (None, None) (child_elements ?bad) = (None, None)"
    by (simp add: parse_tuv_element_def truthy_def is_same_language_def parse_locale_examples
        strip_examples Let_def)
  have h3: "parse_tu_children (tmx_src_lang ?S) (tmx_dst_lang ?S) (None, None)
      (child_elements ?bad) = (None, None)"
    unfolding l by (rule p)
  have g: "process_events ?S ?good
     = Inr ((TmxParser_init ''en'' ''zh'' [] ())
          \<lparr>tag_name_stack := ['''', ''tmx'', ''body''], header_inited := True,
            buffered_parsed_pairs := [(Some ''Hello'', Some ''Ni hao'')]\<rparr>)"
    by (simp add: process_event_def verify_element_def required_parents stack_top_def err_bind_def
        parse_tu_element_def parse_tuv_element_def truthy_def is_same_language_def lower_en_US
        strip_examples Let_def TmxParser_init_def skip_invalid_tmx_data_def)
  note t = TmxParser_tu_error_raises[OF h1 h2 h3, of "[]" "[]" ?good]
  from t have "process_event ?S (End, Element ''tu'' [] ?bad)
     = Inl (InvalidFileFormatError ''TMX'' (Some 1)
              ''No sentence found in source and target languages in this <tu>'')"
    by (simp add: truthy_def TmxParser_init_def current_line_number_def)
  moreover from t g have "skipped_phrases ((TmxParser_init ''en'' ''zh'' [] ())
          \<lparr>tag_name_stack := ['''', ''tmx'', ''body''], header_inited := True,
            buffered_parsed_pairs := [(Some ''Hello'', Some ''Ni hao'')]\<rparr>) = skipped_phrases ?S"
    by blast
  ultimately show ?thesis using p g by (simp add: TmxParser_init_def)
qed

end
